theory Spec2Isabelle
  imports
    Complex_Main
    "HOL-Library.Multiset"
    "HOL-Library.Char_ord"
    "HOL-Library.List_Lexorder"
    "HOL-Library.Product_Lexorder"
begin

section \<open>Frames\<close>

text \<open>
  A data frame is the list of its rows, in frame order. A numeric cell is a
  \<^typ>\<open>real option\<close>: \<^term>\<open>None\<close> is pandas' NaN (a missing value), \<^term>\<open>Some v\<close>
  a finite number. Rounding, overflow and infinite cells of the input files are
  not modelled. A date is a day number, \<^term>\<open>None\<close> is NaT. Player names are
  plain strings. The metric columns of a row are a function of the column name.
\<close>

record workload =
  w_Player_Name :: string
  w_Session_Date :: "int option"
  w_metric_val :: "string \<Rightarrow> real option"

record position =
  p_Player_Name :: string
  p_Position :: "string option"

record row =
  Player_Name :: string
  Session_Date :: "int option"
  Position :: "string option"
  metric_val :: "string \<Rightarrow> real option"

text \<open>\<^verbatim>\<open>workload_df.merge(positions_df, on="Player Name", how="right")\<close>:
  every registry entry is kept, in registry order; an entry without load records
  gives one row whose load columns are all missing.\<close>

definition merge_right :: "workload list \<Rightarrow> position list \<Rightarrow> row list" where
  "merge_right ws ps =
     concat (map (\<lambda>p.
       let ms = filter (\<lambda>w. w_Player_Name w = p_Player_Name p) ws
       in if ms = []
          then [\<lparr>Player_Name = p_Player_Name p, Session_Date = None,
                 Position = p_Position p, metric_val = (\<lambda>_. None)\<rparr>]
          else map (\<lambda>w. \<lparr>Player_Name = p_Player_Name p, Session_Date = w_Session_Date w,
                          Position = p_Position p, metric_val = w_metric_val w\<rparr>) ms) ps)"

text \<open>The sort key of a date: missing dates are placed last, as \<^verbatim>\<open>sort_values\<close> does
  (\<^verbatim>\<open>na_position="last"\<close>).\<close>

definition date_key :: "int option \<Rightarrow> bool \<times> int" where
  "date_key d = (case d of None \<Rightarrow> (True, 0) | Some x \<Rightarrow> (False, x))"

definition row_key :: "'a row_scheme \<Rightarrow> string \<times> bool \<times> int" where
  "row_key r = (Player_Name r, date_key (Session_Date r))"

text \<open>\<^verbatim>\<open>merged_df.sort_values(by=["Player Name", "Session Date"])\<close>, a stable sort.\<close>

definition sort_values_name_date :: "'a row_scheme list \<Rightarrow> 'a row_scheme list" where
  "sort_values_name_date df = sort_key row_key df"

definition merged_df :: "workload list \<Rightarrow> position list \<Rightarrow> row list" where
  "merged_df ws ps = sort_values_name_date (merge_right ws ps)"

definition metrics :: "string list" where
  "metrics = [''High Speed Running'', ''DSL'']"

section \<open>Removing extreme outliers per player\<close>

text \<open>\<^verbatim>\<open>dropna\<close> of a column.\<close>

definition valid :: "real option list \<Rightarrow> real list" where
  "valid col = List.map_filter (\<lambda>x. x) col"

text \<open>\<^verbatim>\<open>Series.quantile(q)\<close>: linear interpolation between the two order statistics
  around the position \<open>(n - 1) * q\<close> of the non-missing values; NaN when there is none.\<close>

definition quantile :: "real option list \<Rightarrow> real \<Rightarrow> real option" where
  "quantile col q =
     (let vs = sort (valid col); n = length vs
      in if n = 0 then None
         else let h = real (n - 1) * q;
                  lo = nat \<lfloor>h\<rfloor>;
                  hi = min (lo + 1) (n - 1)
              in Some (vs ! lo + (vs ! hi - vs ! lo) * (h - real lo)))"

text \<open>Lines 29 to 32: \<open>upper = Q3 + multiplier * (Q3 - Q1)\<close>, NaN when a quantile is NaN.\<close>

definition upper_of :: "real option list \<Rightarrow> real \<Rightarrow> real option" where
  "upper_of col multiplier =
     (case quantile col (25 / 100) of
        None \<Rightarrow> None
      | Some Q1 \<Rightarrow>
          (case quantile col (75 / 100) of
             None \<Rightarrow> None
           | Some Q3 \<Rightarrow> let IQR = Q3 - Q1 in Some (Q3 + multiplier * IQR)))"

text \<open>The comparison \<^verbatim>\<open><=\<close> of two floats: false as soon as one side is NaN.\<close>

definition le_nan :: "real option \<Rightarrow> real option \<Rightarrow> bool" where
  "le_nan a b = (case a of None \<Rightarrow> False
                 | Some x \<Rightarrow> (case b of None \<Rightarrow> False | Some y \<Rightarrow> x \<le> y))"

text \<open>\<^verbatim>\<open>df.groupby("Player Name")\<close>: the groups in ascending key order, each with its
  rows in frame order.\<close>

definition group_of :: "'a row_scheme list \<Rightarrow> string \<Rightarrow> 'a row_scheme list" where
  "group_of df player = filter (\<lambda>r. Player_Name r = player) df"

definition groupby :: "'a row_scheme list \<Rightarrow> (string \<times> 'a row_scheme list) list" where
  "groupby df = map (\<lambda>player. (player, group_of df player)) (sort (remdups (map Player_Name df)))"

definition column :: "'a row_scheme list \<Rightarrow> string \<Rightarrow> real option list" where
  "column df metric = map (\<lambda>r. metric_val r metric) df"

text \<open>The body of the loop of \<^verbatim>\<open>remove_extreme_highs\<close> for one group.\<close>

definition bound_group :: "'a row_scheme list \<Rightarrow> string \<Rightarrow> real \<Rightarrow> 'a row_scheme list" where
  "bound_group grp metric multiplier =
     (let upper = upper_of (column grp metric) multiplier
      in filter (\<lambda>r. le_nan (metric_val r metric) upper) grp)"

text \<open>The loop over the groups appends each bounded group to \<^verbatim>\<open>cleaned\<close>, which starts
  as the empty frame. A frame is modelled by its rows only, so the frame without
  columns that pandas returns when the loop body never runs (a pass over a frame
  without rows; a later \<^verbatim>\<open>groupby\<close> of it raises \<^verbatim>\<open>KeyError\<close>) is the empty list
  like any other frame without rows.\<close>

definition remove_extreme_highs ::
    "'a row_scheme list \<Rightarrow> string \<Rightarrow> real \<Rightarrow> 'a row_scheme list" where
  "remove_extreme_highs df metric multiplier =
     foldl (\<lambda>cleaned (player, grp). cleaned @ bound_group grp metric multiplier)
       [] (groupby df)"

text \<open>Lines 38 and 39: one pass per metric, each on the frame the previous pass left.\<close>

definition bound_all :: "'a row_scheme list \<Rightarrow> string list \<Rightarrow> 'a row_scheme list" where
  "bound_all df ms = foldl (\<lambda>d metric. remove_extreme_highs d metric (25 / 10)) df ms"

section \<open>Acute and chronic averages, and their ratio\<close>

text \<open>The mean of a window, skipping missing cells; with \<^verbatim>\<open>min_periods=1\<close> it is
  defined as soon as one cell of the window is present.\<close>

definition mean_valid :: "real option list \<Rightarrow> real option" where
  "mean_valid w =
     (let vs = valid w
      in if vs = [] then None else Some (sum_list vs / real (length vs)))"

text \<open>The trailing window of size \<open>n\<close> ending at position \<open>i\<close>: positions
  \<open>max 0 (i + 1 - n)\<close> to \<open>i\<close>, both included.\<close>

definition window :: "nat \<Rightarrow> 'b list \<Rightarrow> nat \<Rightarrow> 'b list" where
  "window n xs i = drop (Suc i - n) (take (Suc i) xs)"

text \<open>\<^verbatim>\<open>.rolling(window=n, min_periods=1).mean()\<close> of one group's column.\<close>

definition rolling_mean :: "nat \<Rightarrow> real option list \<Rightarrow> real option list" where
  "rolling_mean n xs = map (\<lambda>i. mean_valid (window n xs i)) [0..<length xs]"

text \<open>The position of row \<open>j\<close> of the frame inside its player's group.\<close>

definition group_pos :: "'a row_scheme list \<Rightarrow> nat \<Rightarrow> nat" where
  "group_pos df j = length (group_of (take j df) (Player_Name (df ! j)))"

text \<open>\<^verbatim>\<open>df.groupby("Player Name")[metric].rolling(n, min_periods=1).mean()
  .reset_index(0, drop=True)\<close>, as the column the assignment writes: the frame's
  index labels are unique (the merge numbers the rows afresh), so row \<open>j\<close> receives
  the value computed at its own position of its own group.\<close>

definition rolling_col :: "nat \<Rightarrow> 'a row_scheme list \<Rightarrow> string \<Rightarrow> real option list" where
  "rolling_col n df metric =
     map (\<lambda>j. rolling_mean n (column (group_of df (Player_Name (df ! j))) metric)
                 ! group_pos df j)
       [0..<length df]"

text \<open>A float that may be infinite: the quotient of two finite floats is NaN for
  \<open>0 / 0\<close> and an infinity for \<open>x / 0\<close> with \<open>x \<noteq> 0\<close>; pandas raises nothing. The
  sign of a zero is not modelled.\<close>

datatype fval = Fin real | PInf | NInf | NaN

definition fdiv :: "real option \<Rightarrow> real option \<Rightarrow> fval" where
  "fdiv a b =
     (case a of
        None \<Rightarrow> NaN
      | Some x \<Rightarrow>
          (case b of
             None \<Rightarrow> NaN
           | Some y \<Rightarrow>
               if y \<noteq> 0 then Fin (x / y)
               else if 0 < x then PInf
               else if x < 0 then NInf
               else NaN))"

record wrow = row +
  Acute :: "string \<Rightarrow> real option"
  Chronic :: "string \<Rightarrow> real option"
  ACWR :: "string \<Rightarrow> fval"

text \<open>The frame before the loop of lines 44 to 57 has none of the derived columns;
  the fields of a metric the loop has not reached are never read (see
  \<open>update_chart\<close>, which raises for them).\<close>

definition no_derived :: "row \<Rightarrow> wrow" where
  "no_derived r =
     \<lparr>Player_Name = Player_Name r, Session_Date = Session_Date r,
      Position = Position r, metric_val = metric_val r,
      Acute = (\<lambda>_. None), Chronic = (\<lambda>_. None), ACWR = (\<lambda>_. NaN)\<rparr>"

text \<open>One turn of the loop of lines 44 to 57: the three columns of one metric.\<close>

definition add_metric :: "wrow list \<Rightarrow> string \<Rightarrow> wrow list" where
  "add_metric df metric =
     (let acute = rolling_col 7 df metric;
          chronic = rolling_col 28 df metric
      in map (\<lambda>j. (df ! j)
                \<lparr>Acute := (Acute (df ! j))(metric := acute ! j),
                 Chronic := (Chronic (df ! j))(metric := chronic ! j),
                 ACWR := (ACWR (df ! j))(metric := fdiv (acute ! j) (chronic ! j))\<rparr>)
           [0..<length df])"

definition enrich :: "row list \<Rightarrow> wrow list" where
  "enrich df = foldl add_metric (map no_derived df) metrics"

section \<open>Most recent entry per player\<close>

text \<open>\<^verbatim>\<open>sort_values("Session Date")\<close> orders the positions of the frame by the date
  column, missing dates last, and takes the rows in that order. No \<^verbatim>\<open>kind\<close> is
  passed, so the positions are ordered by the library's default quicksort, which
  is not stable: the order it leaves among rows of equal date is not fixed by the
  code. The index order is therefore a parameter \<open>argsort\<close> of the model, from the
  list of date keys to the list of positions. \<open>is_argsort\<close> states what every sort
  guarantees and nothing more: the result holds each position once, and the keys
  ascend along it.\<close>

definition is_argsort :: "((bool \<times> int) list \<Rightarrow> nat list) \<Rightarrow> bool" where
  "is_argsort argsort \<longleftrightarrow>
     (\<forall>ks. mset (argsort ks) = mset [0..<length ks]
           \<and> sorted (map (\<lambda>i. ks ! i) (argsort ks)))"

definition sort_values_date ::
    "((bool \<times> int) list \<Rightarrow> nat list) \<Rightarrow> 'a row_scheme list \<Rightarrow> 'a row_scheme list" where
  "sort_values_date argsort df =
     map (\<lambda>i. df ! i) (argsort (map (\<lambda>r. date_key (Session_Date r)) df))"

text \<open>One admissible index order, used where an example is evaluated: the positions
  sorted by key, equal keys in frame order (\<open>is_argsort_stable\<close> below). The general
  statements hold for every admissible order.\<close>

definition stable_argsort :: "(bool \<times> int) list \<Rightarrow> nat list" where
  "stable_argsort ks = sort_key (\<lambda>i. ks ! i) [0..<length ks]"

text \<open>\<^verbatim>\<open>.groupby("Player Name").tail(1)\<close>: the last row of every group, in frame order.\<close>

fun tail1 :: "'a row_scheme list \<Rightarrow> 'a row_scheme list" where
  "tail1 [] = []"
| "tail1 (r # rs) =
     (if Player_Name r \<in> set (map Player_Name rs) then tail1 rs else r # tail1 rs)"

definition latest_df ::
    "((bool \<times> int) list \<Rightarrow> nat list) \<Rightarrow> 'a row_scheme list \<Rightarrow> 'a row_scheme list" where
  "latest_df argsort df = tail1 (sort_values_date argsort df)"

text \<open>Lines 10 to 64, from the two tables as loaded.\<close>

definition pipeline ::
    "((bool \<times> int) list \<Rightarrow> nat list) \<Rightarrow> workload list \<Rightarrow> position list \<Rightarrow> wrow list" where
  "pipeline argsort ws ps =
     latest_df argsort (enrich (bound_all (merged_df ws ps) metrics))"

section \<open>The chart callback\<close>

datatype py_error = KeyError

text \<open>The comparisons of the colour rule on a float: false on NaN.\<close>

fun f_less :: "fval \<Rightarrow> real \<Rightarrow> bool" where
  "f_less (Fin v) c = (v < c)"
| "f_less NInf c = True"
| "f_less PInf c = False"
| "f_less NaN c = False"

fun f_greater :: "fval \<Rightarrow> real \<Rightarrow> bool" where
  "f_greater (Fin v) c = (v > c)"
| "f_greater PInf c = True"
| "f_greater NInf c = False"
| "f_greater NaN c = False"

definition bar_color :: "fval \<Rightarrow> string" where
  "bar_color x =
     (if f_less x (8 / 10) then ''blue''
      else if f_greater x (15 / 10) then ''red'' else ''grey'')"

record bar =
  bar_player :: string
  bar_acute :: "real option"
  bar_chronic :: "real option"
  bar_marker_color :: string

definition bar_of :: "string \<Rightarrow> wrow \<Rightarrow> bar" where
  "bar_of metric r =
     \<lparr>bar_player = Player_Name r, bar_acute = Acute r metric,
      bar_chronic = Chronic r metric, bar_marker_color = bar_color (ACWR r metric)\<rparr>"

text \<open>\<^verbatim>\<open>update_chart\<close> on the frame \<^verbatim>\<open>latest_df\<close>. The columns \<^verbatim>\<open>Acute_m\<close>,
  \<^verbatim>\<open>Chronic_m\<close> and \<^verbatim>\<open>ACWR_m\<close> exist for the metrics of the list \<open>metrics\<close> only,
  so \<^verbatim>\<open>dropna(subset=[acute_col, chronic_col])\<close> raises \<^verbatim>\<open>KeyError\<close> for any other
  selection. An absent or empty position selection is falsy and filters nothing.
  The figure is represented by its bars; building it from the bars raises nothing.\<close>

definition update_chart ::
    "wrow list \<Rightarrow> string option \<Rightarrow> string \<Rightarrow> py_error + bar list" where
  "update_chart latest selected_position selected_metric =
     (let df = (case selected_position of
                  None \<Rightarrow> latest
                | Some p \<Rightarrow> if p = [] then latest
                            else filter (\<lambda>r. Position r = Some p) latest)
      in if selected_metric \<notin> set metrics then Inl KeyError
         else
           let df = filter (\<lambda>r. \<not> (Acute r selected_metric = None
                                    \<and> Chronic r selected_metric = None)) df
           in Inr (map (bar_of selected_metric) df))"

text \<open>Whether one pass keeps a row: its cell against the bound of its own group.\<close>

definition keeps :: "'a row_scheme list \<Rightarrow> string \<Rightarrow> real \<Rightarrow> 'a row_scheme \<Rightarrow> bool" where
  "keeps df m k r =
     le_nan (metric_val r m) (upper_of (column (group_of df (Player_Name r)) m) k)"

section \<open>Example frames\<close>

definition ex_row :: "string \<Rightarrow> int \<Rightarrow> real option \<Rightarrow> real option \<Rightarrow> row" where
  "ex_row p d h s =
     \<lparr>Player_Name = p, Session_Date = Some d, Position = Some ''MF'',
      metric_val = (\<lambda>m. if m = ''High Speed Running'' then h
                          else if m = ''DSL'' then s else None)\<rparr>"

definition ex_spike :: "row list" where
  "ex_spike = [ex_row ''A'' 1 (Some 1) (Some 10), ex_row ''A'' 2 (Some 1) (Some 10),
               ex_row ''A'' 3 (Some 1) (Some 10), ex_row ''A'' 4 (Some 1) (Some 100)]"

definition ex_missing :: "row list" where
  "ex_missing = [ex_row ''A'' 1 (Some 1) (Some 10), ex_row ''A'' 2 (Some 1) None]"

definition ex_coupled :: "row list" where
  "ex_coupled = [ex_row ''A'' 1 (Some 1) (Some 10), ex_row ''A'' 2 (Some 1) (Some 10),
                 ex_row ''A'' 3 (Some 1) (Some 10), ex_row ''A'' 4 (Some 1) (Some 20),
                 ex_row ''A'' 5 (Some 100) (Some 30)]"

definition ex_workload :: "string \<Rightarrow> int \<Rightarrow> real \<Rightarrow> real \<Rightarrow> workload" where
  "ex_workload p d h s =
     \<lparr>w_Player_Name = p, w_Session_Date = Some d,
      w_metric_val = (\<lambda>m. if m = ''High Speed Running'' then Some h
                            else if m = ''DSL'' then Some s else None)\<rparr>"

definition ex_loads :: "workload list" where
  "ex_loads = [ex_workload ''B'' 2 3 30, ex_workload ''A'' 2 1 10, ex_workload ''B'' 1 4 40,
               ex_workload ''A'' 1 2 20]"

definition ex_registry :: "position list" where
  "ex_registry = [\<lparr>p_Player_Name = ''B'', p_Position = Some ''GK''\<rparr>,
                  \<lparr>p_Player_Name = ''A'', p_Position = Some ''MF''\<rparr>,
                  \<lparr>p_Player_Name = ''C'', p_Position = None\<rparr>]"


text \<open>The columns the rolling averages read.\<close>

definition base_of :: "'a row_scheme \<Rightarrow> string \<times> (string \<Rightarrow> real option)" where
  "base_of r = (Player_Name r, metric_val r)"

definition ex_swing_loads :: "workload list" where
  "ex_swing_loads =
     [ex_workload ''A'' 1 (- 35) (- 35), ex_workload ''A'' 2 5 5, ex_workload ''A'' 3 5 5,
      ex_workload ''A'' 4 5 5, ex_workload ''A'' 5 5 5, ex_workload ''A'' 6 5 5,
      ex_workload ''A'' 7 5 5, ex_workload ''A'' 8 5 5]"

definition ex_swing_registry :: "position list" where
  "ex_swing_registry = [\<lparr>p_Player_Name = ''A'', p_Position = Some ''MF''\<rparr>]"

definition ex_swing :: "row list" where
  "ex_swing =
     [ex_row ''A'' 1 (Some (- 35)) (Some (- 35)), ex_row ''A'' 2 (Some 5) (Some 5),
      ex_row ''A'' 3 (Some 5) (Some 5), ex_row ''A'' 4 (Some 5) (Some 5),
      ex_row ''A'' 5 (Some 5) (Some 5), ex_row ''A'' 6 (Some 5) (Some 5),
      ex_row ''A'' 7 (Some 5) (Some 5), ex_row ''A'' 8 (Some 5) (Some 5)]"

definition ex_zero_loads :: "workload list" where
  "ex_zero_loads = [ex_workload ''A'' 1 0 0]"

definition ex_zero :: "row list" where
  "ex_zero = [ex_row ''A'' 1 (Some 0) (Some 0)]"



section \<open>Properties\<close>

subsection \<open>The bounder as a filter of the frame grouped by player\<close>

lemma foldl_append_concat:
  "foldl (\<lambda>cleaned (player, grp). cleaned @ g grp) a xs = a @ concat (map (\<lambda>x. g (snd x)) xs)"
  by (induction xs arbitrary: a) (simp_all split: prod.splits)

lemma remove_extreme_highs_concat:
  "remove_extreme_highs df m k =
     concat (map (\<lambda>p. bound_group (group_of df p) m k) (sort (remdups (map Player_Name df))))"
  by (simp add: remove_extreme_highs_def groupby_def foldl_append_concat comp_def)

lemma bound_group_keeps:
  "bound_group (group_of df p) m k = filter (keeps df m k) (group_of df p)"
  by (auto simp: bound_group_def keeps_def group_of_def Let_def intro: filter_cong)

lemma concat_groups_filter:
  "concat (map (\<lambda>p. filter P (group_of df p)) ks) = filter P (concat (map (group_of df) ks))"
  by (induction ks) simp_all

lemma mset_concat_groups:
  "distinct ks \<Longrightarrow>
     mset (concat (map (group_of df) ks)) = filter_mset (\<lambda>r. Player_Name r \<in> set ks) (mset df)"
proof (induction ks)
  case Nil
  then show ?case by simp
next
  case (Cons p ks)
  then show ?case
    by (auto simp: group_of_def intro!: multiset_eqI)
qed

lemma filter_concat_groups:
  "distinct ks \<Longrightarrow> p \<in> set ks \<Longrightarrow>
     filter (\<lambda>r. Player_Name r = p) (concat (map (group_of df) ks)) = group_of df p"
proof (induction ks)
  case Nil
  then show ?case by simp
next
  case (Cons q ks)
  have none: "filter (\<lambda>r. Player_Name r = p) (concat (map (group_of df) ks)) = []"
    if "p \<notin> set ks" for ks
    using that by (induction ks) (auto simp: group_of_def filter_empty_conv)
  show ?case
  proof (cases "p = q")
    case True
    with Cons.prems have "p \<notin> set ks" by simp
    then have "filter (\<lambda>r. Player_Name r = p) (concat (map (group_of df) ks)) = []"
      by (rule none)
    moreover have "filter (\<lambda>r. Player_Name r = q) (group_of df q) = group_of df q"
      by (simp add: group_of_def)
    ultimately show ?thesis using True by simp
  next
    case False
    with Cons have "filter (\<lambda>r. Player_Name r = p) (concat (map (group_of df) ks)) = group_of df p"
      by simp
    moreover from False have "filter (\<lambda>r. Player_Name r = p) (group_of df q) = []"
      by (auto simp: group_of_def filter_empty_conv)
    ultimately show ?thesis by simp
  qed
qed

lemma sorted_map_const:
  "\<forall>x\<in>set xs. f x = c \<Longrightarrow> sorted (map f xs)"
  by (induction xs) simp_all

lemma sorted_concat_groups:
  "sorted ks \<Longrightarrow> sorted (map Player_Name (concat (map (group_of df) ks)))"
proof (induction ks)
  case Nil
  then show ?case by simp
next
  case (Cons p ks)
  have names: "Player_Name y \<in> set ks" if "y \<in> set (concat (map (group_of df) ks))" for y
    using that by (auto simp: group_of_def)
  have a: "sorted (map Player_Name (group_of df p))"
    by (rule sorted_map_const[where c = p]) (simp add: group_of_def)
  have b: "sorted (map Player_Name (concat (map (group_of df) ks)))"
    using Cons by simp
  have c: "Player_Name x \<le> Player_Name y"
    if "x \<in> set (group_of df p)" "y \<in> set (concat (map (group_of df) ks))" for x y
  proof -
    from that(1) have "Player_Name x = p" by (simp add: group_of_def)
    moreover from that(2) have "Player_Name y \<in> set ks" by (rule names)
    moreover from Cons.prems have "\<forall>q\<in>set ks. p \<le> q" by simp
    ultimately show ?thesis by blast
  qed
  have "sorted (map Player_Name (group_of df p) @ map Player_Name (concat (map (group_of df) ks)))"
    unfolding sorted_append using a b c by auto
  then show ?case by simp
qed
lemma concat_groups_sort_key:
  "concat (map (group_of df) (sort (remdups (map Player_Name df)))) = sort_key Player_Name df"
proof (rule properties_for_sort_key[symmetric])
  let ?ks = "sort (remdups (map Player_Name df))"
  have d: "distinct ?ks" and s: "set ?ks = Player_Name ` set df"
    by simp_all
  show "mset (concat (map (group_of df) ?ks)) = mset df"
    using mset_concat_groups[OF d, of df] s by (simp add: filter_mset_eq_conv)
  show "sorted (map Player_Name (concat (map (group_of df) ?ks)))"
    by (rule sorted_concat_groups) simp
  show "\<And>k. k \<in> set (concat (map (group_of df) ?ks)) \<Longrightarrow>
          filter (\<lambda>x. Player_Name k = Player_Name x) (concat (map (group_of df) ?ks))
          = filter (\<lambda>x. Player_Name k = Player_Name x) df"
  proof -
    fix r assume "r \<in> set (concat (map (group_of df) ?ks))"
    then have "Player_Name r \<in> set ?ks" by (auto simp: group_of_def)
    from filter_concat_groups[OF d this, of df]
    show "filter (\<lambda>x. Player_Name r = Player_Name x) (concat (map (group_of df) ?ks))
          = filter (\<lambda>x. Player_Name r = Player_Name x) df"
      by (simp add: group_of_def eq_commute)
  qed
qed

lemma remove_extreme_highs_filter:
  "remove_extreme_highs df m k = filter (keeps df m k) (sort_key Player_Name df)"
  by (simp add: remove_extreme_highs_concat bound_group_keeps concat_groups_filter
      concat_groups_sort_key)

lemma keeps_iff:
  "keeps df m k r \<longleftrightarrow>
     (\<exists>v u. metric_val r m = Some v
        \<and> upper_of (column (group_of df (Player_Name r)) m) k = Some u \<and> v \<le> u)"
  by (simp add: keeps_def le_nan_def split: option.splits)

lemmas bounder_defs = remove_extreme_highs_def groupby_def group_of_def bound_group_def
  column_def upper_of_def quantile_def valid_def List.map_filter_simps le_nan_def

lemma ex_spike_bounded:
  "remove_extreme_highs ex_spike ''DSL'' (25 / 10) = take 3 ex_spike"
  by (simp add: ex_spike_def ex_row_def bounder_defs)

subsection \<open>One pass only removes rows\<close>

text \<open>Claim C8. One pass of \<open>remove_extreme_highs\<close> only removes rows: the rows of
  the result are rows of the input, each at most as often as there (so there are no
  more of them, and none is altered), and the bounded metric of every retained row
  is a number not above the upper bound computed from the input rows of its player.\<close>

theorem remove_extreme_highs_only_removes:
  "mset (remove_extreme_highs df m k) \<subseteq># mset df
   \<and> length (remove_extreme_highs df m k) \<le> length df
   \<and> (\<forall>r\<in>set (remove_extreme_highs df m k).
         r \<in> set df
         \<and> (\<exists>v u. metric_val r m = Some v
               \<and> upper_of (column (group_of df (Player_Name r)) m) k = Some u
               \<and> v \<le> u))"
proof -
  let ?out = "remove_extreme_highs df m k"
  have out: "?out = filter (keeps df m k) (sort_key Player_Name df)"
    by (rule remove_extreme_highs_filter)
  have sub: "mset ?out \<subseteq># mset df"
    unfolding out by (metis mset_filter mset_sort multiset_filter_subset)
  from sub have "size (mset ?out) \<le> size (mset df)"
    by (rule size_mset_mono)
  then have len: "length ?out \<le> length df" by simp
  have rows: "r \<in> set df \<and> keeps df m k r" if "r \<in> set ?out" for r
    using that unfolding out by simp
  show ?thesis
    using sub len rows by (simp add: keeps_iff)
qed

theorem remove_extreme_highs_only_removes_witness:
  "length (remove_extreme_highs ex_spike ''DSL'' (25 / 10)) = 3
   \<and> length (remove_extreme_highs ex_spike ''DSL'' (25 / 10)) \<le> length ex_spike
   \<and> ex_row ''A'' 1 (Some 1) (Some 10) \<in> set (remove_extreme_highs ex_spike ''DSL'' (25 / 10))
   \<and> ex_row ''A'' 1 (Some 1) (Some 10) \<in> set ex_spike
   \<and> (\<exists>v u. metric_val (ex_row ''A'' 1 (Some 1) (Some 10)) ''DSL'' = Some v
          \<and> upper_of (column (group_of ex_spike ''A'') ''DSL'') (25 / 10) = Some u
          \<and> v \<le> u)"
proof -
  have mem: "ex_row ''A'' 1 (Some 1) (Some 10) \<in> set (remove_extreme_highs ex_spike ''DSL'' (25 / 10))"
    by (simp only: ex_spike_bounded) (simp add: ex_spike_def)
  have len: "length (remove_extreme_highs ex_spike ''DSL'' (25 / 10)) = 3"
    by (simp only: ex_spike_bounded) (simp add: ex_spike_def)
  from remove_extreme_highs_only_removes [of ex_spike "''DSL''" "25 / 10"] mem
  have "length (remove_extreme_highs ex_spike ''DSL'' (25 / 10)) \<le> length ex_spike
    \<and> ex_row ''A'' 1 (Some 1) (Some 10) \<in> set ex_spike
    \<and> (\<exists>v u. metric_val (ex_row ''A'' 1 (Some 1) (Some 10)) ''DSL'' = Some v
          \<and> upper_of (column (group_of ex_spike (Player_Name (ex_row ''A'' 1 (Some 1) (Some 10)))) ''DSL'')
                (25 / 10) = Some u
          \<and> v \<le> u)"
    by blast
  moreover have "Player_Name (ex_row ''A'' 1 (Some 1) (Some 10)) = ''A''"
    by (simp add: ex_row_def)
  ultimately show ?thesis using mem len by simp
qed

subsection \<open>Quantiles lie between the order statistics around them\<close>

lemma set_valid: "set (valid col) = {v. Some v \<in> set col}"
  by (induction col) (auto simp: valid_def List.map_filter_simps split: option.splits)

lemma valid_nonempty_iff: "valid col \<noteq> [] \<longleftrightarrow> (\<exists>v. Some v \<in> set col)"
proof -
  have "valid col \<noteq> [] \<longleftrightarrow> set (valid col) \<noteq> {}" by simp
  also have "\<dots> \<longleftrightarrow> (\<exists>v. Some v \<in> set col)" unfolding set_valid by blast
  finally show ?thesis .
qed

lemma sort_Nil_iff: "sort xs = [] \<longleftrightarrow> xs = []"
  by (metis length_sort length_0_conv)

lemma quantile_None_iff: "quantile col q = None \<longleftrightarrow> valid col = []"
  by (simp add: quantile_def Let_def sort_Nil_iff)

lemma quantile_bounds:
  assumes ne: "valid col \<noteq> []" and q: "0 \<le> q" "q \<le> 1"
  defines "vs \<equiv> sort (valid col)"
  defines "lo \<equiv> nat \<lfloor>real (length vs - 1) * q\<rfloor>"
  defines "hi \<equiv> min (lo + 1) (length vs - 1)"
  shows "\<exists>x. quantile col q = Some x \<and> vs ! lo \<le> x \<and> x \<le> vs ! hi"
    and "lo \<le> length vs - 1"
proof -
  let ?n = "length vs"
  let ?h = "real (?n - 1) * q"
  have n: "0 < ?n" using ne by (simp add: vs_def)
  have h0: "0 \<le> ?h" using q by simp
  have h1: "?h \<le> real (?n - 1)" using q by (simp add: mult_left_le)
  have lo_le_h: "real lo \<le> ?h" using h0 by (simp add: lo_def)
  have lo_le: "lo \<le> ?n - 1"
  proof -
    have "\<lfloor>?h\<rfloor> \<le> int (?n - 1)" using h1 by (simp add: floor_le_iff)
    then show ?thesis by (simp add: lo_def)
  qed
  have h_lt: "?h < real lo + 1" using h0 by (simp add: lo_def)
  have "hi \<le> ?n - 1" by (simp add: hi_def)
  then have hi_lt: "hi < ?n" using n by linarith
  have lo_hi: "lo \<le> hi" using lo_le by (simp add: hi_def)
  have srt: "sorted vs" by (simp add: vs_def)
  have le: "vs ! lo \<le> vs ! hi"
    using srt lo_hi hi_lt by (simp add: sorted_iff_nth_mono)
  let ?g = "?h - real lo"
  have g: "0 \<le> ?g" "?g \<le> 1" using lo_le_h h_lt by simp_all
  let ?x = "vs ! lo + (vs ! hi - vs ! lo) * ?g"
  have eq: "quantile col q = Some ?x"
    using n unfolding quantile_def Let_def vs_def lo_def hi_def by simp
  have "0 \<le> (vs ! hi - vs ! lo) * ?g" using le g by simp
  then have lower: "vs ! lo \<le> ?x" by simp
  have "(vs ! hi - vs ! lo) * ?g \<le> (vs ! hi - vs ! lo) * 1"
    using le g by (intro mult_left_mono) simp_all
  then have upper: "?x \<le> vs ! hi" by simp
  show "\<exists>x. quantile col q = Some x \<and> vs ! lo \<le> x \<and> x \<le> vs ! hi"
    using eq lower upper by blast
  show "lo \<le> length vs - 1" by (rule lo_le)
qed

lemma quantile_mono:
  assumes ne: "valid col \<noteq> []" and q: "0 \<le> q1" "q1 \<le> q2" "q2 \<le> 1"
    and e1: "quantile col q1 = Some x1" and e2: "quantile col q2 = Some x2"
  shows "x1 \<le> x2"
proof -
  define vs where "vs = sort (valid col)"
  let ?n = "length vs"
  define h1 where "h1 = real (?n - 1) * q1"
  define h2 where "h2 = real (?n - 1) * q2"
  define lo1 where "lo1 = nat \<lfloor>h1\<rfloor>"
  define lo2 where "lo2 = nat \<lfloor>h2\<rfloor>"
  define hi1 where "hi1 = min (lo1 + 1) (?n - 1)"
  define hi2 where "hi2 = min (lo2 + 1) (?n - 1)"
  have n: "0 < ?n" using ne by (simp add: vs_def)
  have srt: "sorted vs" by (simp add: vs_def)
  have h12: "h1 \<le> h2" using q by (simp add: h1_def h2_def mult_left_mono)
  have h10: "0 \<le> h1" using q by (simp add: h1_def)
  have h20: "0 \<le> h2" using q by (simp add: h2_def)
  have lo12: "lo1 \<le> lo2" using h12 by (simp add: lo1_def lo2_def floor_mono nat_mono)
  have x1: "x1 = vs ! lo1 + (vs ! hi1 - vs ! lo1) * (h1 - real lo1)"
    using e1 n unfolding quantile_def Let_def vs_def lo1_def hi1_def h1_def by simp
  have x2: "x2 = vs ! lo2 + (vs ! hi2 - vs ! lo2) * (h2 - real lo2)"
    using e2 n unfolding quantile_def Let_def vs_def lo2_def hi2_def h2_def by simp
  from quantile_bounds[OF ne, of q1] q e1
  have b1: "vs ! lo1 \<le> x1" "x1 \<le> vs ! hi1" and l1: "lo1 \<le> ?n - 1"
    by (simp_all add: vs_def lo1_def hi1_def h1_def)
  from quantile_bounds[OF ne, of q2] q e2
  have b2: "vs ! lo2 \<le> x2" "x2 \<le> vs ! hi2" and l2: "lo2 \<le> ?n - 1"
    by (simp_all add: vs_def lo2_def hi2_def h2_def)
  show ?thesis
  proof (cases "lo1 = lo2")
    case True
    then have hi: "hi1 = hi2" by (simp add: hi1_def hi2_def)
    have "lo2 \<le> hi2" using l2 by (simp add: hi2_def)
    moreover have "hi2 \<le> ?n - 1" by (simp add: hi2_def)
    then have "hi2 < ?n" using n by linarith
    ultimately have "vs ! lo2 \<le> vs ! hi2"
      using srt by (simp add: sorted_iff_nth_mono)
    then have "(vs ! hi2 - vs ! lo2) * (h1 - real lo2) \<le> (vs ! hi2 - vs ! lo2) * (h2 - real lo2)"
      using h12 by (intro mult_left_mono) simp_all
    then show ?thesis using True hi x1 x2 by simp
  next
    case False
    with lo12 have "lo1 + 1 \<le> lo2" by simp
    then have "hi1 \<le> lo2" by (simp add: hi1_def)
    moreover have "lo2 < ?n" using l2 n by arith
    ultimately have "vs ! hi1 \<le> vs ! lo2"
      using srt by (simp add: sorted_iff_nth_mono)
    with b1 b2 show ?thesis by simp
  qed
qed

lemma upper_of_ge_min:
  assumes ne: "valid col \<noteq> []" and k: "0 \<le> k"
  shows "\<exists>u. upper_of col k = Some u \<and> Min (set (valid col)) \<le> u"
proof -
  define vs where "vs = sort (valid col)"
  have "quantile col (25 / 100) \<noteq> None" using ne by (simp only: quantile_None_iff not_False_eq_True)
  then obtain Q1 where Q1: "quantile col (25 / 100) = Some Q1" by blast
  define i where "i = nat \<lfloor>real (length vs - 1) * (75 / 100)\<rfloor>"
  have q75: "(0::real) \<le> 75 / 100" "(75::real) / 100 \<le> 1" by simp_all
  have "\<exists>x. quantile col (75 / 100) = Some x \<and> vs ! i \<le> x" and l: "i \<le> length vs - 1"
    unfolding vs_def i_def using quantile_bounds[OF ne q75] by blast+
  then obtain Q3 where Q3: "quantile col (75 / 100) = Some Q3" and lo: "vs ! i \<le> Q3"
    by blast
  have n: "0 < length vs" using ne by (simp add: vs_def)
  have "Q1 \<le> Q3" using quantile_mono[OF ne _ _ _ Q1 Q3] by simp
  then have "0 \<le> k * (Q3 - Q1)" using k by simp
  then have u: "Q3 \<le> Q3 + k * (Q3 - Q1)" by simp
  have "i < length vs" using l n by arith
  then have "vs ! i \<in> set vs" by (rule nth_mem)
  then have "Min (set vs) \<le> vs ! i"
    by simp
  moreover have "set vs = set (valid col)" by (simp add: vs_def)
  ultimately have "Min (set (valid col)) \<le> Q3" using lo by simp
  with u have "Min (set (valid col)) \<le> Q3 + k * (Q3 - Q1)" by simp
  moreover have "upper_of col k = Some (Q3 + k * (Q3 - Q1))"
    using Q1 Q3 by (simp add: upper_of_def)
  ultimately show ?thesis by blast
qed

subsection \<open>A group with a value keeps a row\<close>

lemma set_remove_extreme_highs:
  "set (remove_extreme_highs df m k) = {r \<in> set df. keeps df m k r}"
  by (auto simp: remove_extreme_highs_filter)

text \<open>Claim C10. With a non-negative multiplier, a player who has at least one
  non-missing value of the bounded metric keeps at least one row in one pass: the
  upper bound is at least Q3, hence at least the smallest value of the group, and
  a row holding that smallest value is retained.\<close>

theorem remove_extreme_highs_keeps_group_minimum:
  assumes k: "0 \<le> k" and r: "r \<in> set df" and v: "metric_val r m \<noteq> None"
  shows "\<exists>r'\<in>set (remove_extreme_highs df m k).
           Player_Name r' = Player_Name r
           \<and> metric_val r' m = Some (Min (set (valid (column (group_of df (Player_Name r)) m))))"
proof -
  define p where "p = Player_Name r"
  define col where "col = column (group_of df p) m"
  from r v have "\<exists>x. Some x \<in> set col"
    by (force simp: col_def column_def group_of_def p_def)
  then have ne: "valid col \<noteq> []" by (simp only: valid_nonempty_iff)
  then have "Min (set (valid col)) \<in> set (valid col)" by simp
  then have "Some (Min (set (valid col))) \<in> set col" by (simp add: set_valid)
  then obtain r' where r': "r' \<in> set df" "Player_Name r' = p"
      "metric_val r' m = Some (Min (set (valid col)))"
    by (auto simp: col_def column_def group_of_def)
  from upper_of_ge_min[OF ne k]
  obtain u where u: "upper_of col k = Some u" "Min (set (valid col)) \<le> u" by blast
  have "keeps df m k r'"
    unfolding keeps_iff using r' u by (simp add: col_def)
  with r' have "r' \<in> set (remove_extreme_highs df m k)"
    by (simp add: set_remove_extreme_highs)
  with r' show ?thesis unfolding col_def p_def by blast
qed

theorem remove_extreme_highs_keeps_group_minimum_witness:
  "(0::real) \<le> 25 / 10
   \<and> ex_row ''A'' 4 (Some 1) (Some 100) \<in> set ex_spike
   \<and> metric_val (ex_row ''A'' 4 (Some 1) (Some 100)) ''DSL'' \<noteq> None
   \<and> (\<exists>r'\<in>set (remove_extreme_highs ex_spike ''DSL'' (25 / 10)).
         Player_Name r' = ''A'' \<and> metric_val r' ''DSL'' = Some 10)"
proof -
  have k: "(0::real) \<le> 25 / 10" by simp
  have r: "ex_row ''A'' 4 (Some 1) (Some 100) \<in> set ex_spike" by (simp add: ex_spike_def)
  have v: "metric_val (ex_row ''A'' 4 (Some 1) (Some 100)) ''DSL'' \<noteq> None"
    by (simp add: ex_row_def)
  have n: "Player_Name (ex_row ''A'' 4 (Some 1) (Some 100)) = ''A''" by (simp add: ex_row_def)
  have "Min (set (valid (column (group_of ex_spike ''A'') ''DSL''))) = 10"
    by (simp add: ex_spike_def ex_row_def group_of_def column_def valid_def List.map_filter_simps)
  with remove_extreme_highs_keeps_group_minimum [OF k r v] n
  have "\<exists>r'\<in>set (remove_extreme_highs ex_spike ''DSL'' (25 / 10)).
         Player_Name r' = ''A'' \<and> metric_val r' ''DSL'' = Some 10"
    by simp
  with k r v show ?thesis by blast
qed

subsection \<open>Rows with a missing value\<close>

lemma remove_extreme_highs_defined:
  "r \<in> set (remove_extreme_highs df m k) \<Longrightarrow> metric_val r m \<noteq> None"
  by (auto simp: set_remove_extreme_highs keeps_iff)

text \<open>Claim C2, at a frame with a missing value. Player A has the \<open>DSL\<close> values
  \<open>10\<close> and NaN: both quartiles are \<open>10\<close>, so is the upper bound, and the pass
  drops the row whose value is missing although nothing in it exceeds the bound:
  the comparison of NaN with the bound is false.\<close>

theorem remove_extreme_highs_drops_missing:
  "upper_of (column ex_missing ''DSL'') (25 / 10) = Some 10
   \<and> metric_val (ex_row ''A'' 2 (Some 1) None) ''DSL'' = None
   \<and> remove_extreme_highs ex_missing ''DSL'' (25 / 10) = [ex_row ''A'' 1 (Some 1) (Some 10)]"
  by (simp add: ex_missing_def ex_row_def bounder_defs)

subsection \<open>The passes are chained\<close>

lemma ex_coupled_first:
  "remove_extreme_highs ex_coupled ''High Speed Running'' (25 / 10) = take 4 ex_coupled"
  by (simp add: ex_coupled_def ex_row_def bounder_defs)

lemma ex_coupled_second:
  "remove_extreme_highs (take 4 ex_coupled) ''DSL'' (25 / 10) = take 3 ex_coupled"
  by (simp add: ex_coupled_def ex_row_def bounder_defs)

lemma ex_coupled_alone:
  "remove_extreme_highs ex_coupled ''DSL'' (25 / 10) = ex_coupled"
  by (simp add: ex_coupled_def ex_row_def bounder_defs)

text \<open>Claim C4. The loop over the metric list runs one pass per metric, each on
  the result of the passes before it: the pass for the last metric of a list is
  applied to the frame bounded for the metrics before it, and the bound that every
  retained row satisfies for that metric is computed from the rows of its player
  in that frame. For the configured list the result is the pass for \<open>DSL\<close>
  applied to the result of the pass for \<open>High Speed Running\<close>.\<close>

theorem bound_all_sequential:
  "bound_all df (ms @ [m]) = remove_extreme_highs (bound_all df ms) m (25 / 10)
   \<and> (\<forall>r\<in>set (bound_all df (ms @ [m])).
         \<exists>v u. metric_val r m = Some v
           \<and> upper_of (column (group_of (bound_all df ms) (Player_Name r)) m) (25 / 10) = Some u
           \<and> v \<le> u)
   \<and> bound_all df metrics
       = remove_extreme_highs (remove_extreme_highs df ''High Speed Running'' (25 / 10))
           ''DSL'' (25 / 10)"
proof -
  have step: "bound_all df (ms @ [m]) = remove_extreme_highs (bound_all df ms) m (25 / 10)"
    by (simp add: bound_all_def)
  have "\<exists>v u. metric_val r m = Some v
           \<and> upper_of (column (group_of (bound_all df ms) (Player_Name r)) m) (25 / 10) = Some u
           \<and> v \<le> u"
    if "r \<in> set (bound_all df (ms @ [m]))" for r
    using that unfolding step set_remove_extreme_highs keeps_iff by blast
  moreover have "bound_all df metrics
       = remove_extreme_highs (remove_extreme_highs df ''High Speed Running'' (25 / 10))
           ''DSL'' (25 / 10)"
    by (simp add: bound_all_def metrics_def)
  ultimately show ?thesis using step by blast
qed

theorem bound_all_sequential_witness:
  "bound_all ex_coupled ([''High Speed Running''] @ [''DSL''])
     = remove_extreme_highs (bound_all ex_coupled [''High Speed Running'']) ''DSL'' (25 / 10)
   \<and> bound_all ex_coupled [''High Speed Running''] = take 4 ex_coupled
   \<and> bound_all ex_coupled ([''High Speed Running''] @ [''DSL'']) = take 3 ex_coupled
   \<and> ex_row ''A'' 1 (Some 1) (Some 10) \<in> set (bound_all ex_coupled ([''High Speed Running''] @ [''DSL'']))
   \<and> (\<exists>v u. metric_val (ex_row ''A'' 1 (Some 1) (Some 10)) ''DSL'' = Some v
          \<and> upper_of (column (group_of (bound_all ex_coupled [''High Speed Running'']) ''A'') ''DSL'')
                (25 / 10) = Some u
          \<and> v \<le> u)
   \<and> remove_extreme_highs ex_coupled ''DSL'' (25 / 10) = ex_coupled"
proof -
  note inst = bound_all_sequential [of ex_coupled "[''High Speed Running'']" "''DSL''"]
  have first: "bound_all ex_coupled [''High Speed Running''] = take 4 ex_coupled"
    unfolding bound_all_def foldl.simps by (rule ex_coupled_first)
  have both: "bound_all ex_coupled ([''High Speed Running''] @ [''DSL'']) = take 3 ex_coupled"
    using inst first ex_coupled_second by simp
  have mem: "ex_row ''A'' 1 (Some 1) (Some 10)
               \<in> set (bound_all ex_coupled ([''High Speed Running''] @ [''DSL'']))"
    unfolding both by (simp add: ex_coupled_def)
  have n: "Player_Name (ex_row ''A'' 1 (Some 1) (Some 10)) = ''A''" by (simp add: ex_row_def)
  from inst mem have "\<exists>v u. metric_val (ex_row ''A'' 1 (Some 1) (Some 10)) ''DSL'' = Some v
          \<and> upper_of (column (group_of (bound_all ex_coupled [''High Speed Running''])
                (Player_Name (ex_row ''A'' 1 (Some 1) (Some 10)))) ''DSL'') (25 / 10) = Some u
          \<and> v \<le> u"
    by blast
  then have ex: "\<exists>v u. metric_val (ex_row ''A'' 1 (Some 1) (Some 10)) ''DSL'' = Some v
          \<and> upper_of (column (group_of (bound_all ex_coupled [''High Speed Running'']) ''A'') ''DSL'')
                (25 / 10) = Some u
          \<and> v \<le> u"
    unfolding n .
  from inst have "bound_all ex_coupled ([''High Speed Running''] @ [''DSL''])
     = remove_extreme_highs (bound_all ex_coupled [''High Speed Running'']) ''DSL'' (25 / 10)"
    by blast
  with first both mem ex ex_coupled_alone show ?thesis by blast
qed

subsection \<open>The order by player and date\<close>

lemma sorted_names_if_sorted_keys:
  "sorted (map row_key df) \<Longrightarrow> sorted (map Player_Name df)"
  unfolding sorted_map
  by (erule sorted_wrt_mono_rel[rotated]) (auto simp: row_key_def less_eq_prod_def)

lemma sorted_dates_if_sorted_keys:
  "sorted (map row_key df) \<Longrightarrow>
     sorted (map (\<lambda>r. date_key (Session_Date r)) (group_of df p))"
proof -
  assume "sorted (map row_key df)"
  then have "sorted (map row_key (group_of df p))"
    unfolding group_of_def by (rule sorted_filter)
  then show ?thesis
    unfolding sorted_map
    by (rule sorted_wrt_mono_rel[rotated]) (auto simp: row_key_def less_eq_prod_def group_of_def)
qed

lemma groups_cover_sorted_frame:
  "sorted (map row_key df) \<Longrightarrow> concat (map snd (groupby df)) = df"
proof -
  assume "sorted (map row_key df)"
  then have "sort_key Player_Name df = df"
    by (intro sort_key_id_if_sorted sorted_names_if_sorted_keys)
  moreover have "concat (map snd (groupby df)) = sort_key Player_Name df"
    using concat_groups_sort_key[of df] by (simp add: groupby_def comp_def)
  ultimately show ?thesis by simp
qed

lemma remove_extreme_highs_sorted:
  assumes "sorted (map row_key df)"
  shows "sorted (map row_key (remove_extreme_highs df m k))"
proof -
  from assms have "sort_key Player_Name df = df"
    by (intro sort_key_id_if_sorted sorted_names_if_sorted_keys)
  then have "remove_extreme_highs df m k = filter (keeps df m k) df"
    by (simp add: remove_extreme_highs_filter)
  with assms show ?thesis by (simp add: sorted_filter)
qed

lemma bound_all_sorted:
  "sorted (map row_key df) \<Longrightarrow> sorted (map row_key (bound_all df ms))"
proof (induction ms arbitrary: df)
  case Nil
  then show ?case by (simp add: bound_all_def)
next
  case (Cons m ms)
  from Cons.prems have "sorted (map row_key (remove_extreme_highs df m (25 / 10)))"
    by (rule remove_extreme_highs_sorted)
  from Cons.IH[OF this] show ?case by (simp add: bound_all_def)
qed

lemma merged_df_sorted: "sorted (map row_key (merged_df ws ps))"
  by (simp add: merged_df_def sort_values_name_date_def)

text \<open>Claim C7. The joined frame is ordered by player and then by date (a missing
  date last); a pass of the bounder on a frame so ordered returns a frame so
  ordered; hence the frame that reaches the rolling averages, after any number of
  passes, is so ordered, it is the concatenation of its groups, and the rows of
  every player in it are in ascending date order.\<close>

theorem order_by_player_and_date:
  "sorted (map row_key (merged_df ws ps))
   \<and> (sorted (map row_key df) \<longrightarrow> sorted (map row_key (remove_extreme_highs df m k)))
   \<and> sorted (map row_key (bound_all (merged_df ws ps) ms))
   \<and> concat (map snd (groupby (bound_all (merged_df ws ps) ms))) = bound_all (merged_df ws ps) ms
   \<and> sorted (map (\<lambda>r. date_key (Session_Date r)) (group_of (bound_all (merged_df ws ps) ms) p))"
proof -
  have s: "sorted (map row_key (bound_all (merged_df ws ps) ms))"
    by (intro bound_all_sorted merged_df_sorted)
  show ?thesis
    using s merged_df_sorted[of ws ps] remove_extreme_highs_sorted[of df m k]
      groups_cover_sorted_frame[OF s] sorted_dates_if_sorted_keys[OF s, of p]
    by blast
qed

lemma ex_merged:
  "merged_df ex_loads ex_registry =
     [\<lparr>Player_Name = ''A'', Session_Date = Some 1, Position = Some ''MF'',
        metric_val = w_metric_val (ex_workload ''A'' 1 2 20)\<rparr>,
      \<lparr>Player_Name = ''A'', Session_Date = Some 2, Position = Some ''MF'',
        metric_val = w_metric_val (ex_workload ''A'' 2 1 10)\<rparr>,
      \<lparr>Player_Name = ''B'', Session_Date = Some 1, Position = Some ''GK'',
        metric_val = w_metric_val (ex_workload ''B'' 1 4 40)\<rparr>,
      \<lparr>Player_Name = ''B'', Session_Date = Some 2, Position = Some ''GK'',
        metric_val = w_metric_val (ex_workload ''B'' 2 3 30)\<rparr>,
      \<lparr>Player_Name = ''C'', Session_Date = None, Position = None,
        metric_val = (\<lambda>_. None)\<rparr>]"
  by (simp add: merged_df_def sort_values_name_date_def merge_right_def ex_loads_def
      ex_registry_def ex_workload_def row_key_def date_key_def)


theorem order_by_player_and_date_witness:
  "sorted (map row_key ex_spike)
   \<and> sorted (map row_key (remove_extreme_highs ex_spike ''DSL'' (25 / 10)))
   \<and> sorted (map row_key (merged_df ex_loads ex_registry))
   \<and> map Player_Name (merged_df ex_loads ex_registry) = [''A'', ''A'', ''B'', ''B'', ''C'']
   \<and> sorted (map row_key (bound_all (merged_df ex_loads ex_registry) metrics))
   \<and> concat (map snd (groupby (bound_all (merged_df ex_loads ex_registry) metrics)))
       = bound_all (merged_df ex_loads ex_registry) metrics
   \<and> sorted (map (\<lambda>r. date_key (Session_Date r))
         (group_of (bound_all (merged_df ex_loads ex_registry) metrics) ''A''))"
proof -
  have pre: "sorted (map row_key ex_spike)"
    by (simp add: ex_spike_def ex_row_def row_key_def date_key_def less_eq_prod_def)
  have names: "map Player_Name (merged_df ex_loads ex_registry) = [''A'', ''A'', ''B'', ''B'', ''C'']"
    by (simp add: ex_merged)
  from order_by_player_and_date
    [of ex_loads ex_registry ex_spike "''DSL''" "25 / 10" metrics "''A''"] pre names
  show ?thesis by blast
qed

subsection \<open>The most recent entry per player\<close>

lemma set_tail1: "set (tail1 xs) \<subseteq> set xs"
  by (induction xs) auto





lemma argsort_set: "is_argsort a \<Longrightarrow> set (a ks) = {0..<length ks}"
proof -
  assume "is_argsort a"
  then have "mset (a ks) = mset [0..<length ks]" by (simp add: is_argsort_def)
  then have "set (a ks) = set [0..<length ks]" by (rule mset_eq_setD)
  then show ?thesis by simp
qed

lemma mset_sort_values_date:
  assumes "is_argsort a"
  shows "mset (sort_values_date a df) = mset df"
proof -
  let ?ks = "map (\<lambda>r. date_key (Session_Date r)) df"
  from assms have "mset (a ?ks) = mset [0..<length df]" by (simp add: is_argsort_def)
  then have "image_mset (\<lambda>i. df ! i) (mset (a ?ks)) = image_mset (\<lambda>i. df ! i) (mset [0..<length df])"
    by simp
  then have "mset (map (\<lambda>i. df ! i) (a ?ks)) = mset (map (\<lambda>i. df ! i) [0..<length df])"
    by simp
  then show ?thesis by (simp add: sort_values_date_def map_nth)
qed

lemma set_sort_values_date: "is_argsort a \<Longrightarrow> set (sort_values_date a df) = set df"
  by (rule mset_eq_setD) (rule mset_sort_values_date)

lemma sorted_sort_values_date:
  assumes "is_argsort a"
  shows "sorted (map (\<lambda>r. date_key (Session_Date r)) (sort_values_date a df))"
proof -
  let ?ks = "map (\<lambda>r. date_key (Session_Date r)) df"
  have "date_key (Session_Date (df ! i)) = ?ks ! i" if "i \<in> set (a ?ks)" for i
  proof -
    from that argsort_set[OF assms, of ?ks] have "i < length df" by simp
    then show ?thesis by simp
  qed
  then have "map (\<lambda>r. date_key (Session_Date r)) (sort_values_date a df)
      = map (\<lambda>i. ?ks ! i) (a ?ks)"
    by (simp add: sort_values_date_def)
  moreover from assms have "sorted (map (\<lambda>i. ?ks ! i) (a ?ks))" by (simp add: is_argsort_def)
  ultimately show ?thesis by simp
qed

lemma is_argsort_stable: "is_argsort stable_argsort"
  by (simp add: is_argsort_def stable_argsort_def)




subsection \<open>The derived columns\<close>

lemma column_by_base:
  "column (group_of xs p) m = map (\<lambda>b. snd b m) (filter (\<lambda>b. fst b = p) (map base_of xs))"
  by (simp add: column_def group_of_def filter_map comp_def base_of_def)

lemma column_cong:
  "map base_of xs = map base_of ys \<Longrightarrow> column (group_of xs p) m = column (group_of ys p) m"
  by (simp only: column_by_base)

lemma group_length_cong:
  assumes "map base_of xs = map base_of ys"
  shows "length (group_of xs p) = length (group_of ys p)"
proof -
  have "length (group_of xs p) = length (column (group_of xs p) []) "
    by (simp add: column_def)
  also have "\<dots> = length (column (group_of ys p) [])"
    by (simp only: column_cong[OF assms])
  also have "\<dots> = length (group_of ys p)" by (simp add: column_def)
  finally show ?thesis .
qed

lemma name_cong:
  assumes "map base_of xs = map base_of ys" and "j < length xs"
  shows "Player_Name (xs ! j) = Player_Name (ys ! j)"
proof -
  from assms(1) have l: "length xs = length ys" by (rule map_eq_imp_length_eq)
  from assms have "base_of (xs ! j) = map base_of ys ! j"
    by (metis nth_map)
  with l assms(2) have "base_of (xs ! j) = base_of (ys ! j)" by simp
  then show ?thesis by (simp add: base_of_def)
qed

lemma group_pos_cong:
  assumes "map base_of xs = map base_of ys" and "j < length xs"
  shows "group_pos xs j = group_pos ys j"
proof -
  from assms(1) have "map base_of (take j xs) = map base_of (take j ys)"
    by (simp only: take_map[symmetric])
  then have "length (group_of (take j xs) (Player_Name (xs ! j)))
      = length (group_of (take j ys) (Player_Name (xs ! j)))"
    by (rule group_length_cong)
  with name_cong[OF assms] show ?thesis by (simp add: group_pos_def)
qed

lemma rolling_col_cong:
  assumes "map base_of xs = map base_of ys"
  shows "rolling_col n xs m = rolling_col n ys m"
proof -
  from assms have l: "length xs = length ys" by (rule map_eq_imp_length_eq)
  have "rolling_mean n (column (group_of xs (Player_Name (xs ! j))) m) ! group_pos xs j
      = rolling_mean n (column (group_of ys (Player_Name (ys ! j))) m) ! group_pos ys j"
    if "j < length xs" for j
    using name_cong[OF assms that] group_pos_cong[OF assms that]
      column_cong[OF assms, of "Player_Name (ys ! j)" m]
    by simp
  then show ?thesis
    unfolding rolling_col_def using l by (auto intro!: map_cong)
qed

lemma length_add_metric: "length (add_metric df m) = length df"
  by (simp add: add_metric_def Let_def)

lemma nth_add_metric:
  "j < length df \<Longrightarrow>
     add_metric df m ! j =
       (df ! j)\<lparr>Acute := (Acute (df ! j))(m := rolling_col 7 df m ! j),
                Chronic := (Chronic (df ! j))(m := rolling_col 28 df m ! j),
                ACWR := (ACWR (df ! j))
                  (m := fdiv (rolling_col 7 df m ! j) (rolling_col 28 df m ! j))\<rparr>"
  by (simp add: add_metric_def Let_def)

lemma base_add_metric: "map base_of (add_metric df m) = map base_of df"
  by (rule nth_equalityI) (simp_all add: length_add_metric nth_add_metric base_of_def)

lemma base_no_derived: "map base_of (map no_derived df) = map base_of df"
  by (simp add: base_of_def no_derived_def)

lemma foldl_add_metric:
  "length (foldl add_metric df ms) = length df
   \<and> map base_of (foldl add_metric df ms) = map base_of df
   \<and> (\<forall>j<length df.
         Session_Date (foldl add_metric df ms ! j) = Session_Date (df ! j)
         \<and> Position (foldl add_metric df ms ! j) = Position (df ! j)
         \<and> (\<forall>m\<in>set ms.
               Acute (foldl add_metric df ms ! j) m = rolling_col 7 df m ! j
               \<and> Chronic (foldl add_metric df ms ! j) m = rolling_col 28 df m ! j
               \<and> ACWR (foldl add_metric df ms ! j) m
                   = fdiv (rolling_col 7 df m ! j) (rolling_col 28 df m ! j)))"
proof (induction ms rule: rev_induct)
  case Nil
  then show ?case by simp
next
  case (snoc m ms)
  let ?E = "foldl add_metric df ms"
  from snoc have len: "length ?E = length df" and base: "map base_of ?E = map base_of df"
    by simp_all
  have r7: "rolling_col 7 ?E m = rolling_col 7 df m"
    and r28: "rolling_col 28 ?E m = rolling_col 28 df m"
    using base by (rule rolling_col_cong)+
  have step: "foldl add_metric df (ms @ [m]) = add_metric ?E m" by simp
  have "length (add_metric ?E m) = length df" by (simp add: length_add_metric len)
  moreover have "map base_of (add_metric ?E m) = map base_of df"
    by (simp add: base_add_metric base)
  moreover have "Session_Date (add_metric ?E m ! j) = Session_Date (df ! j)
         \<and> Position (add_metric ?E m ! j) = Position (df ! j)
         \<and> (\<forall>m'\<in>set (ms @ [m]).
               Acute (add_metric ?E m ! j) m' = rolling_col 7 df m' ! j
               \<and> Chronic (add_metric ?E m ! j) m' = rolling_col 28 df m' ! j
               \<and> ACWR (add_metric ?E m ! j) m'
                   = fdiv (rolling_col 7 df m' ! j) (rolling_col 28 df m' ! j))"
    if j: "j < length df" for j
  proof -
    from j len have jE: "j < length ?E" by simp
    from snoc j have ih: "Session_Date (?E ! j) = Session_Date (df ! j)"
        "Position (?E ! j) = Position (df ! j)"
        "\<forall>m\<in>set ms. Acute (?E ! j) m = rolling_col 7 df m ! j
               \<and> Chronic (?E ! j) m = rolling_col 28 df m ! j
               \<and> ACWR (?E ! j) m = fdiv (rolling_col 7 df m ! j) (rolling_col 28 df m ! j)"
      by simp_all
    show ?thesis
      using ih by (simp add: nth_add_metric[OF jE] r7 r28)
  qed
  ultimately show ?case unfolding step by blast
qed

subsection \<open>Rolling averages on a frame without missing values\<close>

lemma filter_nth_index:
  "i < length (filter P xs) \<Longrightarrow>
     \<exists>j<length xs. filter P xs ! i = xs ! j \<and> P (xs ! j) \<and> length (filter P (take j xs)) = i"
proof (induction xs rule: rev_induct)
  case Nil
  then show ?case by simp
next
  case (snoc x xs)
  show ?case
  proof (cases "i < length (filter P xs)")
    case True
    from snoc.IH[OF this] obtain j where j: "j < length xs" "filter P xs ! i = xs ! j"
        "P (xs ! j)" "length (filter P (take j xs)) = i" by blast
    from True j have "filter P (xs @ [x]) ! i = (xs @ [x]) ! j"
      by (simp add: nth_append)
    moreover from j have "P ((xs @ [x]) ! j)" by (simp add: nth_append)
    moreover from j have "length (filter P (take j (xs @ [x]))) = i" by simp
    moreover from j have "j < length (xs @ [x])" by simp
    ultimately show ?thesis by blast
  next
    case False
    with snoc.prems have px: "P x" and i: "i = length (filter P xs)"
      by (auto split: if_splits)
    then have "filter P (xs @ [x]) ! i = (xs @ [x]) ! length xs"
      by (simp add: nth_append)
    moreover from px have "P ((xs @ [x]) ! length xs)" by simp
    moreover from i have "length (filter P (take (length xs) (xs @ [x]))) = i" by simp
    ultimately show ?thesis by (intro exI[of _ "length xs"]) simp
  qed
qed

lemma group_row_index:
  assumes "i < length (group_of df p)"
  shows "\<exists>j<length df. group_of df p ! i = df ! j \<and> Player_Name (df ! j) = p
           \<and> group_pos df j = i"
proof -
  from filter_nth_index[of i "\<lambda>r. Player_Name r = p" df] assms
  obtain j where "j < length df" "group_of df p ! i = df ! j" "Player_Name (df ! j) = p"
      "length (group_of (take j df) p) = i"
    unfolding group_of_def by blast
  then show ?thesis unfolding group_pos_def by blast
qed

lemma nth_rolling_mean:
  "i < length xs \<Longrightarrow> rolling_mean n xs ! i = mean_valid (window n xs i)"
  by (simp add: rolling_mean_def)

lemma length_window:
  "i < length xs \<Longrightarrow> length (window n xs i) = min n (Suc i)"
  by (simp add: window_def)

lemma window_map: "window n (map f xs) i = map f (window n xs i)"
  by (simp add: window_def take_map drop_map)

lemma set_window: "set (window n xs i) \<subseteq> set xs"
  unfolding window_def by (meson set_drop_subset set_take_subset subset_trans)

lemma valid_map_Some: "valid (map Some vs) = vs"
  by (induction vs) (simp_all add: valid_def List.map_filter_simps)

lemma all_Some_map:
  "\<forall>x\<in>set xs. f x \<noteq> None \<Longrightarrow> \<exists>vs. map f xs = map Some vs"
proof (induction xs)
  case Nil
  then show ?case by simp
next
  case (Cons x xs)
  then obtain vs where "map f xs = map Some vs" by auto
  moreover from Cons.prems obtain v where "f x = Some v" by auto
  ultimately have "map f (x # xs) = map Some (v # vs)" by simp
  then show ?case by blast
qed

lemma bound_all_snoc:
  "bound_all df (ms @ [m]) = remove_extreme_highs (bound_all df ms) m (25 / 10)"
  by (simp add: bound_all_def)

lemma set_bound_all: "set (bound_all df ms) \<subseteq> set df"
proof (induction ms rule: rev_induct)
  case Nil
  then show ?case by (simp add: bound_all_def)
next
  case (snoc m ms)
  have "set (bound_all df (ms @ [m])) \<subseteq> set (bound_all df ms)"
    unfolding bound_all_snoc set_remove_extreme_highs by blast
  with snoc show ?case by blast
qed

lemma bound_all_defined:
  "m \<in> set ms \<Longrightarrow> r \<in> set (bound_all df ms) \<Longrightarrow> metric_val r m \<noteq> None"
proof (induction ms rule: rev_induct)
  case Nil
  then show ?case by simp
next
  case (snoc m' ms)
  from snoc.prems(2) have r: "r \<in> set (bound_all df ms)" and k: "keeps (bound_all df ms) m' (25 / 10) r"
    unfolding bound_all_snoc set_remove_extreme_highs by simp_all
  show ?case
  proof (cases "m = m'")
    case True
    with k show ?thesis by (auto simp: keeps_iff)
  next
    case False
    with snoc.prems(1) have "m \<in> set ms" by simp
    then show ?thesis using r by (rule snoc.IH)
  qed
qed

lemma enrich_length: "length (enrich df) = length df"
  using foldl_add_metric[of "map no_derived df" metrics] by (simp add: enrich_def)

lemma enrich_base: "map base_of (enrich df) = map base_of df"
proof -
  from foldl_add_metric[of "map no_derived df" metrics]
  have "map base_of (enrich df) = map base_of (map no_derived df)"
    unfolding enrich_def by blast
  then show ?thesis by (simp only: base_no_derived)
qed

lemma enrich_nth:
  assumes j: "j < length df" and m: "m \<in> set metrics"
  shows "Acute (enrich df ! j) m = rolling_col 7 df m ! j"
    and "Chronic (enrich df ! j) m = rolling_col 28 df m ! j"
    and "ACWR (enrich df ! j) m = fdiv (Acute (enrich df ! j) m) (Chronic (enrich df ! j) m)"
proof -
  let ?D = "map no_derived df"
  from j have jD: "j < length ?D" by simp
  from foldl_add_metric[of ?D metrics] jD m
  have a: "Acute (enrich df ! j) m = rolling_col 7 ?D m ! j"
    and c: "Chronic (enrich df ! j) m = rolling_col 28 ?D m ! j"
    and w: "ACWR (enrich df ! j) m = fdiv (rolling_col 7 ?D m ! j) (rolling_col 28 ?D m ! j)"
    unfolding enrich_def by blast+
  have r7: "rolling_col 7 ?D m = rolling_col 7 df m"
    and r28: "rolling_col 28 ?D m = rolling_col 28 df m"
    using base_no_derived[of df] by (rule rolling_col_cong)+
  show "Acute (enrich df ! j) m = rolling_col 7 df m ! j" using a r7 by simp
  show "Chronic (enrich df ! j) m = rolling_col 28 df m ! j" using c r28 by simp
  show "ACWR (enrich df ! j) m = fdiv (Acute (enrich df ! j) m) (Chronic (enrich df ! j) m)"
    using a c w by simp
qed

lemma nth_rolling_col:
  assumes "j < length df"
  shows "rolling_col n df m ! j
           = mean_valid (window n (column (group_of df (Player_Name (df ! j))) m) (group_pos df j))"
proof -
  let ?p = "Player_Name (df ! j)"
  have "df = take j df @ df ! j # drop (Suc j) df"
    using assms by (rule id_take_nth_drop)
  then have "group_of df ?p = group_of (take j df) ?p @ group_of (df ! j # drop (Suc j) df) ?p"
    unfolding group_of_def by (metis filter_append)
  then have "length (group_of (take j df) ?p) < length (group_of df ?p)"
    by (simp add: group_of_def)
  then have "group_pos df j < length (column (group_of df ?p) m)"
    by (simp add: group_pos_def column_def)
  then have "rolling_mean n (column (group_of df ?p) m) ! group_pos df j
      = mean_valid (window n (column (group_of df ?p) m) (group_pos df j))"
    by (rule nth_rolling_mean)
  then show ?thesis using assms by (simp add: rolling_col_def)
qed

lemma enrich_group_row:
  assumes i: "i < length (group_of df p)" and m: "m \<in> set metrics"
  shows "length (group_of (enrich df) p) = length (group_of df p)"
    and "Acute (group_of (enrich df) p ! i) m = mean_valid (window 7 (column (group_of df p) m) i)"
    and "Chronic (group_of (enrich df) p ! i) m = mean_valid (window 28 (column (group_of df p) m) i)"
    and "ACWR (group_of (enrich df) p ! i) m
           = fdiv (Acute (group_of (enrich df) p ! i) m) (Chronic (group_of (enrich df) p ! i) m)"
    and "Player_Name (group_of (enrich df) p ! i) = p"
proof -
  let ?E = "enrich df"
  show len: "length (group_of ?E p) = length (group_of df p)"
    using enrich_base[of df] by (rule group_length_cong)
  with i have "i < length (group_of ?E p)" by simp
  from group_row_index[OF this]
  obtain j where j: "j < length ?E" "group_of ?E p ! i = ?E ! j" "Player_Name (?E ! j) = p"
      "group_pos ?E j = i" by blast
  from j(1) have jd: "j < length df" by (simp add: enrich_length)
  have n: "Player_Name (df ! j) = p"
    using name_cong[OF enrich_base j(1)] j(3) by simp
  have g: "group_pos df j = i"
    using group_pos_cong[OF enrich_base j(1)] j(4) by simp
  show "Acute (group_of ?E p ! i) m = mean_valid (window 7 (column (group_of df p) m) i)"
    using enrich_nth(1)[OF jd m] nth_rolling_col[OF jd, of 7 m] by (simp add: j(2) n g)
  show "Chronic (group_of ?E p ! i) m = mean_valid (window 28 (column (group_of df p) m) i)"
    using enrich_nth(2)[OF jd m] nth_rolling_col[OF jd, of 28 m] by (simp add: j(2) n g)
  show "ACWR (group_of ?E p ! i) m
           = fdiv (Acute (group_of ?E p ! i) m) (Chronic (group_of ?E p ! i) m)"
    using enrich_nth(3)[OF jd m] by (simp add: j(2))
  show "Player_Name (group_of ?E p ! i) = p" using j(2,3) by simp
qed

lemma mean_valid_window_defined:
  assumes i: "i < length g" and d: "\<forall>r\<in>set g. metric_val r m \<noteq> None" and n: "0 < n"
  shows "\<exists>vs. map (\<lambda>r. metric_val r m) (window n g i) = map Some vs
           \<and> length vs = min n (Suc i)
           \<and> mean_valid (window n (column g m) i) = Some (sum_list vs / real (length vs))"
proof -
  from d set_window[of n g i] have "\<forall>r\<in>set (window n g i). metric_val r m \<noteq> None" by blast
  from all_Some_map[of "window n g i" "\<lambda>r. metric_val r m", OF this]
  obtain vs where vs: "map (\<lambda>r. metric_val r m) (window n g i) = map Some vs" by blast
  from vs have "length (map (\<lambda>r. metric_val r m) (window n g i)) = length (map Some vs)"
    by (rule arg_cong)
  then have "length vs = length (window n g i)" by simp
  with i have l: "length vs = min n (Suc i)" by (simp add: length_window)
  with n have "0 < length vs" by simp
  then have ne: "vs \<noteq> []" by simp
  have "window n (column g m) i = map Some vs"
    unfolding column_def window_map by (rule vs)
  then have "mean_valid (window n (column g m) i) = Some (sum_list vs / real (length vs))"
    using ne by (simp add: mean_valid_def valid_map_Some)
  with vs l show ?thesis by blast
qed

lemma ex_spike_bound_all: "bound_all ex_spike metrics = take 3 ex_spike"
proof -
  have "remove_extreme_highs ex_spike ''High Speed Running'' (25 / 10) = ex_spike"
    by (simp add: ex_spike_def ex_row_def bounder_defs)
  then show ?thesis
    unfolding bound_all_def metrics_def foldl.simps by (simp only: ex_spike_bounded)
qed

text \<open>Claim C5. In the frame the pipeline hands to the rolling stage (the frame
  after the bounding passes for the configured metrics), take the \<open>i\<close>-th row of a
  player's group and a configured metric. The cells of the metric in the rows
  \<open>max 0 (i - 6)\<close> to \<open>i\<close> of the group are all present and the acute average of
  that row is their arithmetic mean; the same holds for the chronic average with
  the rows \<open>max 0 (i - 27)\<close> to \<open>i\<close>. Both averages are therefore defined at every
  row, and at the first row of a group they equal the row's own value.\<close>

theorem rolling_averages_defined:
  assumes m: "m \<in> set metrics" and i: "i < length (group_of (bound_all df metrics) p)"
  shows "\<exists>acute chronic.
           map (\<lambda>r. metric_val r m) (window 7 (group_of (bound_all df metrics) p) i) = map Some acute
         \<and> length acute = min 7 (Suc i)
         \<and> map (\<lambda>r. metric_val r m) (window 28 (group_of (bound_all df metrics) p) i) = map Some chronic
         \<and> length chronic = min 28 (Suc i)
         \<and> length (group_of (enrich (bound_all df metrics)) p) = length (group_of (bound_all df metrics) p)
         \<and> Acute (group_of (enrich (bound_all df metrics)) p ! i) m
             = Some (sum_list acute / real (length acute))
         \<and> Chronic (group_of (enrich (bound_all df metrics)) p ! i) m
             = Some (sum_list chronic / real (length chronic))
         \<and> (i = 0 \<longrightarrow>
               Acute (group_of (enrich (bound_all df metrics)) p ! i) m
                 = metric_val (group_of (bound_all df metrics) p ! 0) m
             \<and> Chronic (group_of (enrich (bound_all df metrics)) p ! i) m
                 = metric_val (group_of (bound_all df metrics) p ! 0) m)"
proof -
  let ?B = "bound_all df metrics"
  let ?g = "group_of ?B p"
  let ?E = "enrich ?B"
  have d: "\<forall>r\<in>set ?g. metric_val r m \<noteq> None"
  proof
    fix r assume "r \<in> set ?g"
    then have "r \<in> set ?B" by (simp add: group_of_def)
    with m show "metric_val r m \<noteq> None" by (rule bound_all_defined)
  qed
  from mean_valid_window_defined[OF i d, of 7]
  obtain acute where a: "map (\<lambda>r. metric_val r m) (window 7 ?g i) = map Some acute"
      "length acute = min 7 (Suc i)"
      "mean_valid (window 7 (column ?g m) i) = Some (sum_list acute / real (length acute))"
    by auto
  from mean_valid_window_defined[OF i d, of 28]
  obtain chronic where c: "map (\<lambda>r. metric_val r m) (window 28 ?g i) = map Some chronic"
      "length chronic = min 28 (Suc i)"
      "mean_valid (window 28 (column ?g m) i) = Some (sum_list chronic / real (length chronic))"
    by auto
  note e = enrich_group_row[OF i m]
  have A: "Acute (group_of ?E p ! i) m = Some (sum_list acute / real (length acute))"
    using e(2) a(3) by simp
  have C: "Chronic (group_of ?E p ! i) m = Some (sum_list chronic / real (length chronic))"
    using e(3) c(3) by simp
  have first: "Acute (group_of ?E p ! i) m = metric_val (?g ! 0) m
             \<and> Chronic (group_of ?E p ! i) m = metric_val (?g ! 0) m" if z: "i = 0"
  proof -
    from i z have ne: "?g \<noteq> []" by auto
    then have w: "window 7 ?g 0 = [?g ! 0]" "window 28 ?g 0 = [?g ! 0]"
      by (simp_all add: window_def take_Suc_conv_app_nth)
    from a(1) w(1) z obtain v where v: "acute = [v]" "metric_val (?g ! 0) m = Some v"
      by (cases acute) auto
    from c(1) w(2) z obtain u where u: "chronic = [u]" "metric_val (?g ! 0) m = Some u"
      by (cases chronic) auto
    from A C v u show ?thesis by simp
  qed
  from a(1,2) c(1,2) e(1) A C first show ?thesis by blast
qed

theorem rolling_averages_defined_witness:
  "''DSL'' \<in> set metrics
   \<and> 2 < length (group_of (bound_all ex_spike metrics) ''A'')
   \<and> map (\<lambda>r. metric_val r ''DSL'') (window 7 (group_of (bound_all ex_spike metrics) ''A'') 2)
       = map Some [10, 10, 10]
   \<and> Acute (group_of (enrich (bound_all ex_spike metrics)) ''A'' ! 2) ''DSL'' = Some 10
   \<and> Chronic (group_of (enrich (bound_all ex_spike metrics)) ''A'' ! 2) ''DSL'' = Some 10"
proof -
  have m: "''DSL'' \<in> set metrics" by (simp add: metrics_def)
  have g: "group_of (bound_all ex_spike metrics) ''A'' = take 3 ex_spike"
    unfolding ex_spike_bound_all by (simp add: ex_spike_def ex_row_def group_of_def)
  have i: "2 < length (group_of (bound_all ex_spike metrics) ''A'')"
    unfolding g by (simp add: ex_spike_def)
  have w7: "map (\<lambda>r. metric_val r ''DSL'') (window 7 (group_of (bound_all ex_spike metrics) ''A'') 2)
       = map Some [10, 10, 10]"
    unfolding g by (simp add: ex_spike_def ex_row_def window_def)
  have w28: "map (\<lambda>r. metric_val r ''DSL'') (window 28 (group_of (bound_all ex_spike metrics) ''A'') 2)
       = map Some [10, 10, 10]"
    unfolding g by (simp add: ex_spike_def ex_row_def window_def)
  from rolling_averages_defined [OF m i]
  obtain acute chronic where
    a: "map (\<lambda>r. metric_val r ''DSL'') (window 7 (group_of (bound_all ex_spike metrics) ''A'') 2)
          = map Some acute"
    and c: "map (\<lambda>r. metric_val r ''DSL'') (window 28 (group_of (bound_all ex_spike metrics) ''A'') 2)
          = map Some chronic"
    and A: "Acute (group_of (enrich (bound_all ex_spike metrics)) ''A'' ! 2) ''DSL''
          = Some (sum_list acute / real (length acute))"
    and C: "Chronic (group_of (enrich (bound_all ex_spike metrics)) ''A'' ! 2) ''DSL''
          = Some (sum_list chronic / real (length chronic))"
    by blast
  from a w7 have "map Some acute = map Some [10, 10, 10]" by simp
  then have acute: "acute = [10, 10, 10]" by (simp add: map_eq_Cons_conv)
  from c w28 have "map Some chronic = map Some [10, 10, 10]" by simp
  then have chronic: "chronic = [10, 10, 10]" by (simp add: map_eq_Cons_conv)
  from A acute have "Acute (group_of (enrich (bound_all ex_spike metrics)) ''A'' ! 2) ''DSL'' = Some 10"
    by simp
  moreover from C chronic
  have "Chronic (group_of (enrich (bound_all ex_spike metrics)) ''A'' ! 2) ''DSL'' = Some 10"
    by simp
  ultimately show ?thesis using m i w7 by blast
qed

subsection \<open>A chronic average of zero\<close>

lemma enrich_nth_base:
  assumes "j < length df"
  shows "Player_Name (enrich df ! j) = Player_Name (df ! j)"
    and "metric_val (enrich df ! j) = metric_val (df ! j)"
    and "Session_Date (enrich df ! j) = Session_Date (df ! j)"
    and "Position (enrich df ! j) = Position (df ! j)"
proof -
  from assms have jE: "j < length (enrich df)" by (simp add: enrich_length)
  have "map base_of (enrich df) ! j = map base_of df ! j" by (simp only: enrich_base)
  with assms jE have "base_of (enrich df ! j) = base_of (df ! j)" by simp
  then show "Player_Name (enrich df ! j) = Player_Name (df ! j)"
    and "metric_val (enrich df ! j) = metric_val (df ! j)"
    by (simp_all add: base_of_def)
  from assms have jD: "j < length (map no_derived df)" by simp
  from foldl_add_metric[of "map no_derived df" metrics] jD
  have "Session_Date (enrich df ! j) = Session_Date (map no_derived df ! j)"
    and "Position (enrich df ! j) = Position (map no_derived df ! j)"
    unfolding enrich_def by blast+
  with assms show "Session_Date (enrich df ! j) = Session_Date (df ! j)"
    and "Position (enrich df ! j) = Position (df ! j)"
    by (simp_all add: no_derived_def)
qed

lemma tail1_single_player:
  "xs \<noteq> [] \<Longrightarrow> \<forall>r\<in>set xs. Player_Name r = p \<Longrightarrow> tail1 xs = [last xs]"
proof (induction xs)
  case Nil
  then show ?case by simp
next
  case (Cons x xs)
  show ?case
  proof (cases "xs = []")
    case True
    then show ?thesis by simp
  next
    case False
    then obtain y where y: "y \<in> set xs" by (cases xs) auto
    with Cons.prems(2) have eq: "Player_Name y = Player_Name x" by simp
    from y have "Player_Name y \<in> set (map Player_Name xs)" by simp
    then have "Player_Name x \<in> set (map Player_Name xs)" unfolding eq .
    then have "tail1 (x # xs) = tail1 xs" by simp
    moreover from Cons.prems(2) have "\<forall>r\<in>set xs. Player_Name r = p" by simp
    with False have "tail1 xs = [last xs]" by (rule Cons.IH)
    ultimately show ?thesis using False by simp
  qed
qed

lemma sort_values_date_distinct:
  assumes a: "is_argsort a"
    and srt: "sorted (map (\<lambda>r. date_key (Session_Date r)) df)"
    and dist: "distinct (map (\<lambda>r. date_key (Session_Date r)) df)"
  shows "sort_values_date a df = df"
proof -
  let ?dk = "\<lambda>r. date_key (Session_Date r)"
  let ?S = "sort_values_date a df"
  have m: "mset ?S = mset df" using a by (rule mset_sort_values_date)
  have "image_mset ?dk (mset ?S) = image_mset ?dk (mset df)" by (simp only: m)
  then have mk: "mset (map ?dk ?S) = mset (map ?dk df)" by (simp only: mset_map)
  have setS: "set ?S = set df" using m by (rule mset_eq_setD)
  have d: "distinct (map ?dk ?S)"
    using mset_eq_imp_distinct_iff[OF mk] dist by blast
  have s: "sorted (map ?dk ?S)" using a by (rule sorted_sort_values_date)
  have e: "set (map ?dk ?S) = set (map ?dk df)" using mk by (rule mset_eq_setD)
  have keys: "map ?dk ?S = map ?dk df"
    using s d srt dist e by (rule sorted_distinct_set_unique)
  from dist have "inj_on ?dk (set df)" by (simp only: distinct_map)
  then have "inj_on ?dk (set ?S \<union> set df)" by (simp only: setS Un_absorb)
  then have "(map ?dk ?S = map ?dk df) = (?S = df)" by (rule inj_on_map_eq_map)
  with keys show ?thesis by blast
qed

lemma latest_df_single_player:
  assumes a: "is_argsort a"
    and ne: "df \<noteq> []" and one: "\<forall>r\<in>set df. Player_Name r = p"
    and srt: "sorted (map (\<lambda>r. date_key (Session_Date r)) df)"
    and dist: "distinct (map (\<lambda>r. date_key (Session_Date r)) df)"
  shows "latest_df a (enrich df) = [enrich df ! (length df - 1)]"
proof -
  let ?E = "enrich df"
  have len: "length ?E = length df" by (rule enrich_length)
  have keys: "map (\<lambda>r. date_key (Session_Date r)) ?E = map (\<lambda>r. date_key (Session_Date r)) df"
    by (rule nth_equalityI) (simp_all add: len enrich_nth_base)
  have s: "sort_values_date a ?E = ?E"
    using a by (rule sort_values_date_distinct) (simp_all only: keys srt dist)
  have neE: "?E \<noteq> []" using ne len by auto
  have "\<forall>r\<in>set ?E. Player_Name r = p"
  proof
    fix r assume "r \<in> set ?E"
    then obtain j where j: "j < length ?E" "r = ?E ! j" by (auto simp: in_set_conv_nth)
    with len have "Player_Name r = Player_Name (df ! j)" by (simp add: enrich_nth_base)
    moreover from j len have "df ! j \<in> set df" by simp
    ultimately show "Player_Name r = p" using one by simp
  qed
  with neE have "tail1 ?E = [last ?E]" by (rule tail1_single_player)
  moreover have "last ?E = ?E ! (length df - 1)" using neE len by (simp add: last_conv_nth)
  ultimately show ?thesis by (simp add: latest_df_def s)
qed

lemma ex_swing_merged: "merged_df ex_swing_loads ex_swing_registry = ex_swing"
  by (simp add: merged_df_def sort_values_name_date_def merge_right_def ex_swing_loads_def
      ex_swing_registry_def ex_workload_def row_key_def date_key_def ex_swing_def ex_row_def)

lemma ex_swing_bounded: "bound_all ex_swing metrics = ex_swing"
  by (simp add: bound_all_def metrics_def ex_swing_def ex_row_def bounder_defs)

lemma ex_swing_pipeline:
  assumes "is_argsort a"
  shows "pipeline a ex_swing_loads ex_swing_registry = [enrich ex_swing ! 7]"
proof -
  have "latest_df a (enrich ex_swing) = [enrich ex_swing ! (length ex_swing - 1)]"
    using assms by (rule latest_df_single_player[where p = "''A''"])
       (simp_all add: ex_swing_def ex_row_def date_key_def)
  moreover have "length ex_swing - 1 = 7" by (simp add: ex_swing_def)
  ultimately show ?thesis
    by (simp only: pipeline_def ex_swing_merged ex_swing_bounded)
qed

lemma ex_swing_last:
  "Player_Name (enrich ex_swing ! 7) = ''A''"
  "Acute (enrich ex_swing ! 7) ''DSL'' = Some 5"
  "Chronic (enrich ex_swing ! 7) ''DSL'' = Some 0"
  "ACWR (enrich ex_swing ! 7) ''DSL'' = PInf"
proof -
  have j: "7 < length ex_swing" by (simp add: ex_swing_def)
  have m: "''DSL'' \<in> set metrics" by (simp add: metrics_def)
  show "Player_Name (enrich ex_swing ! 7) = ''A''"
    using enrich_nth_base(1)[OF j] by (simp add: ex_swing_def ex_row_def)
  have g: "group_of ex_swing (Player_Name (ex_swing ! 7)) = ex_swing" "group_pos ex_swing 7 = 7"
    by (simp_all add: ex_swing_def ex_row_def group_of_def group_pos_def)
  show a: "Acute (enrich ex_swing ! 7) ''DSL'' = Some 5"
    unfolding enrich_nth(1)[OF j m] nth_rolling_col[OF j] g
    by (simp add: ex_swing_def ex_row_def column_def window_def mean_valid_def valid_def
        List.map_filter_simps)
  show c: "Chronic (enrich ex_swing ! 7) ''DSL'' = Some 0"
    unfolding enrich_nth(2)[OF j m] nth_rolling_col[OF j] g
    by (simp add: ex_swing_def ex_row_def column_def window_def mean_valid_def valid_def
        List.map_filter_simps)
  show "ACWR (enrich ex_swing ! 7) ''DSL'' = PInf"
    unfolding enrich_nth(3)[OF j m] a c by (simp add: fdiv_def)
qed

lemma ex_zero_merged: "merged_df ex_zero_loads ex_swing_registry = ex_zero"
  by (simp add: merged_df_def sort_values_name_date_def merge_right_def ex_zero_loads_def
      ex_swing_registry_def ex_workload_def ex_zero_def ex_row_def)

lemma ex_zero_bounded: "bound_all ex_zero metrics = ex_zero"
  by (simp add: bound_all_def metrics_def ex_zero_def ex_row_def bounder_defs)

lemma ex_zero_pipeline:
  assumes "is_argsort a"
  shows "pipeline a ex_zero_loads ex_swing_registry = [enrich ex_zero ! 0]"
proof -
  have "latest_df a (enrich ex_zero) = [enrich ex_zero ! (length ex_zero - 1)]"
    using assms by (rule latest_df_single_player[where p = "''A''"])
       (simp_all add: ex_zero_def ex_row_def)
  moreover have "length ex_zero - 1 = 0" by (simp add: ex_zero_def)
  ultimately show ?thesis
    by (simp only: pipeline_def ex_zero_merged ex_zero_bounded)
qed

lemma ex_zero_last:
  "Player_Name (enrich ex_zero ! 0) = ''A''"
  "Position (enrich ex_zero ! 0) = Some ''MF''"
  "Acute (enrich ex_zero ! 0) ''DSL'' = Some 0"
  "Chronic (enrich ex_zero ! 0) ''DSL'' = Some 0"
  "ACWR (enrich ex_zero ! 0) ''DSL'' = NaN"
proof -
  have j: "0 < length ex_zero" by (simp add: ex_zero_def)
  have m: "''DSL'' \<in> set metrics" by (simp add: metrics_def)
  show "Player_Name (enrich ex_zero ! 0) = ''A''"
    using enrich_nth_base(1)[OF j] by (simp add: ex_zero_def ex_row_def)
  show "Position (enrich ex_zero ! 0) = Some ''MF''"
    using enrich_nth_base(4)[OF j] by (simp add: ex_zero_def ex_row_def)
  have g: "group_of ex_zero (Player_Name (ex_zero ! 0)) = ex_zero" "group_pos ex_zero 0 = 0"
    by (simp_all add: ex_zero_def ex_row_def group_of_def group_pos_def)
  show a: "Acute (enrich ex_zero ! 0) ''DSL'' = Some 0"
    unfolding enrich_nth(1)[OF j m] nth_rolling_col[OF j] g
    by (simp add: ex_zero_def ex_row_def column_def window_def mean_valid_def valid_def
        List.map_filter_simps)
  show c: "Chronic (enrich ex_zero ! 0) ''DSL'' = Some 0"
    unfolding enrich_nth(2)[OF j m] nth_rolling_col[OF j] g
    by (simp add: ex_zero_def ex_row_def column_def window_def mean_valid_def valid_def
        List.map_filter_simps)
  show "ACWR (enrich ex_zero ! 0) ''DSL'' = NaN"
    unfolding enrich_nth(3)[OF j m] a c by (simp add: fdiv_def)
qed

lemma ex_zero_snapshot:
  "length (pipeline stable_argsort ex_zero_loads ex_swing_registry) = 1"
  "Player_Name (hd (pipeline stable_argsort ex_zero_loads ex_swing_registry)) = ''A''"
  "Position (hd (pipeline stable_argsort ex_zero_loads ex_swing_registry)) = Some ''MF''"
  "Acute (hd (pipeline stable_argsort ex_zero_loads ex_swing_registry)) ''DSL'' = Some 0"
  "Chronic (hd (pipeline stable_argsort ex_zero_loads ex_swing_registry)) ''DSL'' = Some 0"
  "ACWR (hd (pipeline stable_argsort ex_zero_loads ex_swing_registry)) ''DSL'' = NaN"
  unfolding ex_zero_pipeline[OF is_argsort_stable] by (simp_all add: ex_zero_last)

lemma set_latest_df: "is_argsort a \<Longrightarrow> set (latest_df a df) \<subseteq> set df"
  using set_tail1[of "sort_values_date a df"] by (simp add: latest_df_def set_sort_values_date)

lemma enrich_acwr:
  assumes "r \<in> set (enrich df)" and "m \<in> set metrics"
  shows "ACWR r m = fdiv (Acute r m) (Chronic r m)"
proof -
  from assms(1) obtain j where "j < length (enrich df)" "r = enrich df ! j"
    by (auto simp: in_set_conv_nth)
  then have "j < length df" "r = enrich df ! j" by (simp_all add: enrich_length)
  with enrich_nth(3)[OF this(1) assms(2)] show ?thesis by simp
qed

lemma fdiv_zero:
  "fdiv a (Some 0) =
     (case a of None \<Rightarrow> NaN
      | Some x \<Rightarrow> if 0 < x then PInf else if x < 0 then NInf else NaN)"
  by (simp add: fdiv_def split: option.splits)

lemma update_chart_configured:
  "m \<in> set metrics \<Longrightarrow>
     update_chart latest None m
       = Inr (map (bar_of m) (filter (\<lambda>r. \<not> (Acute r m = None \<and> Chronic r m = None)) latest))"
  by (simp add: update_chart_def)

text \<open>Claim C3, as stated, at the snapshot of a player whose \<open>DSL\<close> values are
  \<open>-35\<close> and then seven times \<open>5\<close>: the acute average is \<open>5\<close>, the chronic
  average is \<open>0\<close>, and the ratio is the float \<open>+inf\<close>, not an undefined value;
  the chart keeps the row and colours it red (over-loaded). The dates of the
  player are distinct, so every sort gives this snapshot.\<close>

theorem acwr_zero_chronic_counterexample:
  "length (pipeline stable_argsort ex_swing_loads ex_swing_registry) = 1
   \<and> Acute (hd (pipeline stable_argsort ex_swing_loads ex_swing_registry)) ''DSL'' = Some 5
   \<and> Chronic (hd (pipeline stable_argsort ex_swing_loads ex_swing_registry)) ''DSL'' = Some 0
   \<and> ACWR (hd (pipeline stable_argsort ex_swing_loads ex_swing_registry)) ''DSL'' = PInf
   \<and> ACWR (hd (pipeline stable_argsort ex_swing_loads ex_swing_registry)) ''DSL'' \<noteq> NaN
   \<and> update_chart (pipeline stable_argsort ex_swing_loads ex_swing_registry) None ''DSL''
       = Inr [\<lparr>bar_player = ''A'', bar_acute = Some 5, bar_chronic = Some 0,
               bar_marker_color = ''red''\<rparr>]"
proof -
  have m: "''DSL'' \<in> set metrics" by (simp add: metrics_def)
  show ?thesis
    unfolding ex_swing_pipeline[OF is_argsort_stable] update_chart_configured[OF m]
    by (simp add: ex_swing_last bar_of_def bar_color_def)
qed

text \<open>Claim C3, amended. Whatever order the sort of the snapshot leaves among equal
  dates: for a row of the snapshot whose chronic average of a
  configured metric is zero, the ratio is computed without an error: it is NaN when
  the acute average is zero or missing, \<open>+inf\<close> when it is positive and \<open>-inf\<close>
  when it is negative. The chart for that metric is produced, it contains the bar of
  the row, and the bar is coloured by the rule of every other row: grey for NaN,
  red for \<open>+inf\<close>, blue for \<open>-inf\<close>.\<close>

theorem acwr_zero_chronic:
  assumes a: "is_argsort argsort"
    and m: "m \<in> set metrics" and r: "r \<in> set (pipeline argsort ws ps)"
    and z: "Chronic r m = Some 0"
  shows "ACWR r m
           = (case Acute r m of None \<Rightarrow> NaN
              | Some a \<Rightarrow> if 0 < a then PInf else if a < 0 then NInf else NaN)
         \<and> (\<exists>bars. update_chart (pipeline argsort ws ps) None m = Inr bars
               \<and> bar_of m r \<in> set bars)
         \<and> bar_marker_color (bar_of m r)
             = (case Acute r m of None \<Rightarrow> ''grey''
                | Some a \<Rightarrow> if 0 < a then ''red'' else if a < 0 then ''blue'' else ''grey'')"
proof -
  from r have "r \<in> set (enrich (bound_all (merged_df ws ps) metrics))"
    using set_latest_df[OF a] unfolding pipeline_def by blast
  then have "ACWR r m = fdiv (Acute r m) (Chronic r m)" using m by (rule enrich_acwr)
  with z have w: "ACWR r m
           = (case Acute r m of None \<Rightarrow> NaN
              | Some a \<Rightarrow> if 0 < a then PInf else if a < 0 then NInf else NaN)"
    by (simp add: fdiv_zero)
  from r z have "bar_of m r \<in> set (map (bar_of m)
      (filter (\<lambda>r. \<not> (Acute r m = None \<and> Chronic r m = None)) (pipeline argsort ws ps)))"
    by simp
  then have b: "\<exists>bars. update_chart (pipeline argsort ws ps) None m = Inr bars
      \<and> bar_of m r \<in> set bars"
    unfolding update_chart_configured[OF m] by blast
  have c: "bar_marker_color (bar_of m r)
             = (case Acute r m of None \<Rightarrow> ''grey''
                | Some a \<Rightarrow> if 0 < a then ''red'' else if a < 0 then ''blue'' else ''grey'')"
    unfolding w bar_of_def by (simp add: bar_color_def split: option.splits)
  from w b c show ?thesis by blast
qed

theorem acwr_zero_chronic_witness:
  "is_argsort stable_argsort
   \<and> ''DSL'' \<in> set metrics
   \<and> hd (pipeline stable_argsort ex_zero_loads ex_swing_registry)
       \<in> set (pipeline stable_argsort ex_zero_loads ex_swing_registry)
   \<and> Chronic (hd (pipeline stable_argsort ex_zero_loads ex_swing_registry)) ''DSL'' = Some 0
   \<and> ACWR (hd (pipeline stable_argsort ex_zero_loads ex_swing_registry)) ''DSL'' = NaN
   \<and> bar_marker_color (bar_of ''DSL'' (hd (pipeline stable_argsort ex_zero_loads ex_swing_registry)))
       = ''grey''"
proof -
  let ?r = "hd (pipeline stable_argsort ex_zero_loads ex_swing_registry)"
  have m: "''DSL'' \<in> set metrics" by (simp add: metrics_def)
  have "pipeline stable_argsort ex_zero_loads ex_swing_registry \<noteq> []"
    using ex_zero_snapshot(1) by auto
  then have r: "?r \<in> set (pipeline stable_argsort ex_zero_loads ex_swing_registry)"
    by (rule hd_in_set)
  note z = ex_zero_snapshot(5)
  from acwr_zero_chronic [OF is_argsort_stable m r z]
  have "ACWR ?r ''DSL'' = NaN \<and> bar_marker_color (bar_of ''DSL'' ?r) = ''grey''"
    by (simp add: ex_zero_snapshot(4))
  with is_argsort_stable m r z show ?thesis by blast
qed

subsection \<open>A row without a date\<close>





subsection \<open>Players without load records\<close>

lemma merge_right_unloaded:
  assumes "x \<in> set (merge_right ws ps)" and "Player_Name x \<notin> w_Player_Name ` set ws"
  shows "metric_val x = (\<lambda>_. None)"
proof -
  from assms(1) obtain p where p: "p \<in> set ps"
    and x: "x \<in> set (let ms = filter (\<lambda>w. w_Player_Name w = p_Player_Name p) ws
       in if ms = []
          then [\<lparr>Player_Name = p_Player_Name p, Session_Date = None,
                 Position = p_Position p, metric_val = (\<lambda>_. None)\<rparr>]
          else map (\<lambda>w. \<lparr>Player_Name = p_Player_Name p, Session_Date = w_Session_Date w,
                          Position = p_Position p, metric_val = w_metric_val w\<rparr>) ms)"
    unfolding merge_right_def by auto
  let ?ms = "filter (\<lambda>w. w_Player_Name w = p_Player_Name p) ws"
  show ?thesis
  proof (cases "?ms = []")
    case True
    with x show ?thesis by (simp add: Let_def)
  next
    case False
    with x obtain w where w: "w \<in> set ?ms" and n: "Player_Name x = p_Player_Name p"
      by (auto simp: Let_def)
    from w have "w \<in> set ws" and "w_Player_Name w = p_Player_Name p" by simp_all
    with n have "w \<in> set ws" and "w_Player_Name w = Player_Name x" by simp_all
    then have "Player_Name x \<in> w_Player_Name ` set ws" by (metis imageI)
    with assms(2) show ?thesis by simp
  qed
qed

lemma pipeline_drops_unloaded:
  assumes a: "is_argsort a" and "p \<notin> w_Player_Name ` set ws"
  shows "p \<notin> set (map Player_Name (pipeline a ws ps))"
proof
  let ?B = "bound_all (merged_df ws ps) metrics"
  assume "p \<in> set (map Player_Name (pipeline a ws ps))"
  then obtain r where r: "r \<in> set (pipeline a ws ps)" "Player_Name r = p" by auto
  from r(1) have "r \<in> set (enrich ?B)"
    using set_latest_df[OF a] unfolding pipeline_def by blast
  then obtain j where j: "j < length ?B" "r = enrich ?B ! j"
    by (auto simp: in_set_conv_nth enrich_length)
  from j r(2) have n: "Player_Name (?B ! j) = p" by (simp add: enrich_nth_base)
  from j(1) have mem: "?B ! j \<in> set ?B" by simp
  have "''DSL'' \<in> set metrics" by (simp add: metrics_def)
  then have d: "metric_val (?B ! j) ''DSL'' \<noteq> None" using mem by (rule bound_all_defined)
  from mem set_bound_all have "?B ! j \<in> set (merged_df ws ps)" by blast
  then have "?B ! j \<in> set (merge_right ws ps)"
    by (simp add: merged_df_def sort_values_name_date_def)
  then have "metric_val (?B ! j) = (\<lambda>_. None)"
    using assms(2) n by (intro merge_right_unloaded) simp_all
  with d show False by simp
qed

text \<open>Claim C1, at a registry with a player without load records. Player C is in
  the registry and has no load record; the joined frame has a row for C, all of
  whose metric cells are missing; the snapshot has no row for C, because the first
  bounding pass compares the missing cell with the bound and drops the row. The
  snapshot has no row for C with any sort; it is evaluated with \<open>stable_argsort\<close>.\<close>

theorem pipeline_drops_registry_only_player:
  "''C'' \<in> set (map p_Player_Name ex_registry)
   \<and> ''C'' \<notin> set (map w_Player_Name ex_loads)
   \<and> ''C'' \<in> set (map Player_Name (merged_df ex_loads ex_registry))
   \<and> ''C'' \<notin> set (map Player_Name
         (remove_extreme_highs (merged_df ex_loads ex_registry) ''High Speed Running'' (25 / 10)))
   \<and> ''C'' \<notin> set (map Player_Name (pipeline stable_argsort ex_loads ex_registry))"
proof -
  have a: "''C'' \<in> set (map p_Player_Name ex_registry)" by (simp add: ex_registry_def)
  have b: "''C'' \<notin> set (map w_Player_Name ex_loads)"
    by (simp add: ex_loads_def ex_workload_def)
  have c: "''C'' \<in> set (map Player_Name (merged_df ex_loads ex_registry))"
    by (simp add: ex_merged)
  have d: "''C'' \<notin> set (map Player_Name
         (remove_extreme_highs (merged_df ex_loads ex_registry) ''High Speed Running'' (25 / 10)))"
    unfolding ex_merged by (simp add: bounder_defs ex_workload_def)
  from b have "''C'' \<notin> w_Player_Name ` set ex_loads" by simp
  with is_argsort_stable
  have e: "''C'' \<notin> set (map Player_Name (pipeline stable_argsort ex_loads ex_registry))"
    by (rule pipeline_drops_unloaded)
  from a b c d e show ?thesis by blast
qed

subsection \<open>Selections of the chart callback\<close>

lemma ex_zero_chart:
  "update_chart (pipeline stable_argsort ex_zero_loads ex_swing_registry) None ''DSL''
     = Inr [\<lparr>bar_player = ''A'', bar_acute = Some 0, bar_chronic = Some 0,
             bar_marker_color = ''grey''\<rparr>]"
proof -
  have m: "''DSL'' \<in> set metrics" by (simp add: metrics_def)
  from ex_zero_snapshot(1) obtain r where r: "pipeline stable_argsort ex_zero_loads ex_swing_registry = [r]"
    by (auto simp: length_Suc_conv)
  with ex_zero_snapshot(2,4,5,6) show ?thesis
    unfolding update_chart_configured[OF m]
    by (simp add: bar_of_def bar_color_def)
qed

lemma ex_zero_positions:
  "Some ''GK'' \<notin> set (map Position (pipeline stable_argsort ex_zero_loads ex_swing_registry))"
proof -
  from ex_zero_snapshot(1) obtain r where r: "pipeline stable_argsort ex_zero_loads ex_swing_registry = [r]"
    by (auto simp: length_Suc_conv)
  with ex_zero_snapshot(3) show ?thesis by simp
qed

text \<open>Claim C9, as stated, at the snapshot of one player in position MF. A metric
  that is not configured makes the callback raise \<open>KeyError\<close>. A position that no
  row has does not fall back to no filtering: the chart is empty, while the chart
  without a position filter has one bar.\<close>

theorem update_chart_unrecognized_counterexample:
  "''Sprint Distance'' \<notin> set metrics
   \<and> update_chart (pipeline stable_argsort ex_zero_loads ex_swing_registry) None ''Sprint Distance''
       = Inl KeyError
   \<and> Some ''GK'' \<notin> set (map Position (pipeline stable_argsort ex_zero_loads ex_swing_registry))
   \<and> update_chart (pipeline stable_argsort ex_zero_loads ex_swing_registry) (Some ''GK'') ''DSL'' = Inr []
   \<and> update_chart (pipeline stable_argsort ex_zero_loads ex_swing_registry) None ''DSL''
       = Inr [\<lparr>bar_player = ''A'', bar_acute = Some 0, bar_chronic = Some 0,
               bar_marker_color = ''grey''\<rparr>]"
proof -
  have a: "''Sprint Distance'' \<notin> set metrics" by (simp add: metrics_def)
  then have b: "update_chart (pipeline stable_argsort ex_zero_loads ex_swing_registry) None ''Sprint Distance''
       = Inl KeyError"
    by (simp add: update_chart_def)
  from ex_zero_snapshot(1) obtain r where r: "pipeline stable_argsort ex_zero_loads ex_swing_registry = [r]"
    by (auto simp: length_Suc_conv)
  with ex_zero_snapshot(3) have p: "Position r = Some ''MF''" by simp
  have "''DSL'' \<in> set metrics" by (simp add: metrics_def)
  with p have c: "update_chart (pipeline stable_argsort ex_zero_loads ex_swing_registry) (Some ''GK'') ''DSL'' = Inr []"
    unfolding r by (simp add: update_chart_def)
  from a b c ex_zero_positions ex_zero_chart show ?thesis by blast
qed

text \<open>Claim C9, amended. With a configured metric the callback returns a chart for
  every position selection: an absent or empty selection filters nothing, and a
  position that no row has gives the empty chart. With a metric that is not
  configured the callback raises \<open>KeyError\<close>, whatever the position selection.\<close>

theorem update_chart_selection:
  "(m \<in> set metrics \<longrightarrow> (\<exists>bars. update_chart latest pos m = Inr bars))
   \<and> (m \<in> set metrics \<and> (pos = None \<or> pos = Some []) \<longrightarrow>
        update_chart latest pos m
          = Inr (map (bar_of m)
                  (filter (\<lambda>r. \<not> (Acute r m = None \<and> Chronic r m = None)) latest)))
   \<and> (m \<in> set metrics \<and> pos = Some p \<and> p \<noteq> [] \<and> Some p \<notin> set (map Position latest) \<longrightarrow>
        update_chart latest pos m = Inr [])
   \<and> (m \<notin> set metrics \<longrightarrow> update_chart latest pos m = Inl KeyError)"
proof -
  have 1: "\<exists>bars. update_chart latest pos m = Inr bars" if "m \<in> set metrics"
    using that by (simp add: update_chart_def Let_def)
  have 2: "update_chart latest pos m
          = Inr (map (bar_of m)
                  (filter (\<lambda>r. \<not> (Acute r m = None \<and> Chronic r m = None)) latest))"
    if "m \<in> set metrics" "pos = None \<or> pos = Some []"
    using that by (auto simp: update_chart_def)
  have 3: "update_chart latest pos m = Inr []"
    if "m \<in> set metrics" "pos = Some p" "p \<noteq> []" "Some p \<notin> set (map Position latest)"
  proof -
    have "Position r \<noteq> Some p" if r: "r \<in> set latest" for r
    proof
      assume "Position r = Some p"
      with r have "Some p \<in> set (map Position latest)" by (metis image_eqI set_map)
      with \<open>Some p \<notin> set (map Position latest)\<close> show False by simp
    qed
    then have "filter (\<lambda>r. Position r = Some p) latest = []"
      by (simp add: filter_empty_conv)
    with that(1,2,3) show ?thesis by (simp add: update_chart_def)
  qed
  have 4: "update_chart latest pos m = Inl KeyError" if "m \<notin> set metrics"
    using that by (simp add: update_chart_def)
  from 1 2 3 4 show ?thesis by blast
qed

theorem update_chart_selection_witness:
  "''DSL'' \<in> set metrics
   \<and> (\<exists>bars. update_chart (pipeline stable_argsort ex_zero_loads ex_swing_registry) (Some ''MF'') ''DSL'' = Inr bars)
   \<and> update_chart (pipeline stable_argsort ex_zero_loads ex_swing_registry) (Some []) ''DSL''
       = Inr (map (bar_of ''DSL'')
               (filter (\<lambda>r. \<not> (Acute r ''DSL'' = None \<and> Chronic r ''DSL'' = None))
                  (pipeline stable_argsort ex_zero_loads ex_swing_registry)))
   \<and> ''GK'' \<noteq> []
   \<and> Some ''GK'' \<notin> set (map Position (pipeline stable_argsort ex_zero_loads ex_swing_registry))
   \<and> update_chart (pipeline stable_argsort ex_zero_loads ex_swing_registry) (Some ''GK'') ''DSL'' = Inr []
   \<and> ''HSR'' \<notin> set metrics
   \<and> update_chart (pipeline stable_argsort ex_zero_loads ex_swing_registry) (Some ''GK'') ''HSR'' = Inl KeyError"
proof -
  let ?L = "pipeline stable_argsort ex_zero_loads ex_swing_registry"
  have m: "''DSL'' \<in> set metrics" and n: "''HSR'' \<notin> set metrics" by (simp_all add: metrics_def)
  have g: "''GK'' \<noteq> []" by simp
  note p = ex_zero_positions
  from update_chart_selection [of "''DSL''" ?L "Some ''MF''" "''MF''"] m
  have 1: "\<exists>bars. update_chart ?L (Some ''MF'') ''DSL'' = Inr bars" by blast
  from update_chart_selection [of "''DSL''" ?L "Some []" "[]"] m
  have 2: "update_chart ?L (Some []) ''DSL''
       = Inr (map (bar_of ''DSL'')
               (filter (\<lambda>r. \<not> (Acute r ''DSL'' = None \<and> Chronic r ''DSL'' = None)) ?L))"
    by blast
  from update_chart_selection [of "''DSL''" ?L "Some ''GK''" "''GK''"] m g p
  have 3: "update_chart ?L (Some ''GK'') ''DSL'' = Inr []" by blast
  from update_chart_selection [of "''HSR''" ?L "Some ''GK''" "''GK''"] n
  have 4: "update_chart ?L (Some ''GK'') ''HSR'' = Inl KeyError" by blast
  from m n g p 1 2 3 4 show ?thesis by blast
qed

end
